theory Spec2Isabelle
  imports Complex_Main
begin

section \<open>Torus geometry: the model of Torus.h and Torus.cpp\<close>

text \<open>
  Conventions of the embedding.
  \<^item> \<open>float\<close> is the type \<open>float\<close> of the next subsection: a real number of magnitude
    at most \<open>FLT_MAX\<close>, plus infinity, minus infinity or NaN. An operation on finite
    operands returns the exact real result, or the infinity of its sign when that result
    is beyond \<open>FLT_MAX\<close>; on infinities and NaN the operations follow IEEE 754
    (\<open>0 * inf\<close>, \<open>inf - inf\<close> and \<open>inf / inf\<close> are NaN, every comparison with NaN is
    false). The rounding of a finite result, underflow, the sign of zero and the payload
    of NaN are outside the model. \<open>cosf\<close>, \<open>sinf\<close>, \<open>sqrtf\<close> and \<open>acos\<close> are the real
    functions on finite arguments. An integer literal or an \<open>int\<close> that the source
    converts to \<open>float\<close> is \<open>Fin\<close> of it, or \<open>float_of_int\<close> of a variable.
  \<^item> \<open>int\<close> is \<open>int\<close>, \<open>unsigned int\<close> and \<open>std::size_t\<close> are \<open>nat\<close>; a mesh so large
    that the source's 32-bit arithmetic would overflow is outside the model.
  \<^item> \<open>std::vector\<close> is a list; \<open>push_back\<close> appends, \<open>v[i] = x\<close> is \<open>v[i := x]\<close>.
    A subscript beyond the end of a vector is undefined in C++; the model returns
    \<open>Inl OutOfRange\<close> there.
  \<^item> The members \<open>majorRadius\<close> and \<open>minorRadius\<close> are \<open>None\<close> while nothing has
    been assigned to them; reading such a member is undefined in C++, and the model
    returns \<open>Inl UninitializedRead\<close> there.
  \<^item> A member function is a function from the object before the call to
    \<open>error + torus\<close>, the object after it. The source has no \<open>throw\<close> and returns no
    error code: the two values of \<open>error\<close> mark the two undefined behaviours above, and
    a call that meets neither returns \<open>Inr\<close>.
\<close>

subsection \<open>The values of \<open>float\<close>\<close>

text \<open>
  A finite float is its real value; \<open>FLT_MAX\<close> is the largest one, (2 - 2^-23) * 2^127.
  \<open>rnd\<close> is the result of an operation whose exact value is \<open>x\<close>: the value itself,
  or the infinity of its sign when the value is beyond \<open>FLT_MAX\<close> (overflow).
\<close>

definition FLT_MAX :: real where
  "FLT_MAX = 340282346638528859811704183484516925440"

datatype float = Fin real | PInf | NInf | NaN

definition rnd :: "real \<Rightarrow> float" where
  "rnd x = (if FLT_MAX < x then PInf else if x < - FLT_MAX then NInf else Fin x)"

fun fneg :: "float \<Rightarrow> float" where
  "fneg (Fin a) = Fin (- a)"
| "fneg PInf = NInf"
| "fneg NInf = PInf"
| "fneg NaN = NaN"

fun fadd :: "float \<Rightarrow> float \<Rightarrow> float" where
  "fadd (Fin a) (Fin b) = rnd (a + b)"
| "fadd (Fin a) PInf = PInf"
| "fadd (Fin a) NInf = NInf"
| "fadd PInf (Fin b) = PInf"
| "fadd PInf PInf = PInf"
| "fadd PInf NInf = NaN"
| "fadd NInf (Fin b) = NInf"
| "fadd NInf PInf = NaN"
| "fadd NInf NInf = NInf"
| "fadd NaN y = NaN"
| "fadd x NaN = NaN"

fun fmul :: "float \<Rightarrow> float \<Rightarrow> float" where
  "fmul (Fin a) (Fin b) = rnd (a * b)"
| "fmul (Fin a) PInf = (if a = 0 then NaN else if 0 < a then PInf else NInf)"
| "fmul (Fin a) NInf = (if a = 0 then NaN else if 0 < a then NInf else PInf)"
| "fmul PInf (Fin b) = (if b = 0 then NaN else if 0 < b then PInf else NInf)"
| "fmul NInf (Fin b) = (if b = 0 then NaN else if 0 < b then NInf else PInf)"
| "fmul PInf PInf = PInf"
| "fmul PInf NInf = NInf"
| "fmul NInf PInf = NInf"
| "fmul NInf NInf = PInf"
| "fmul NaN y = NaN"
| "fmul x NaN = NaN"

fun fdiv :: "float \<Rightarrow> float \<Rightarrow> float" where
  "fdiv (Fin a) (Fin b) =
     (if b = 0 then (if a = 0 then NaN else if 0 < a then PInf else NInf) else rnd (a / b))"
| "fdiv (Fin a) PInf = Fin 0"
| "fdiv (Fin a) NInf = Fin 0"
| "fdiv PInf (Fin b) = (if 0 \<le> b then PInf else NInf)"
| "fdiv NInf (Fin b) = (if 0 \<le> b then NInf else PInf)"
| "fdiv PInf PInf = NaN"
| "fdiv PInf NInf = NaN"
| "fdiv NInf PInf = NaN"
| "fdiv NInf NInf = NaN"
| "fdiv NaN y = NaN"
| "fdiv x NaN = NaN"

fun fless :: "float \<Rightarrow> float \<Rightarrow> bool" where
  "fless (Fin a) (Fin b) \<longleftrightarrow> a < b"
| "fless (Fin a) PInf \<longleftrightarrow> True"
| "fless (Fin a) NInf \<longleftrightarrow> False"
| "fless PInf y \<longleftrightarrow> False"
| "fless NInf (Fin b) \<longleftrightarrow> True"
| "fless NInf PInf \<longleftrightarrow> True"
| "fless NInf NInf \<longleftrightarrow> False"
| "fless NaN y \<longleftrightarrow> False"
| "fless x NaN \<longleftrightarrow> False"

fun fless_eq :: "float \<Rightarrow> float \<Rightarrow> bool" where
  "fless_eq (Fin a) (Fin b) \<longleftrightarrow> a \<le> b"
| "fless_eq (Fin a) PInf \<longleftrightarrow> True"
| "fless_eq (Fin a) NInf \<longleftrightarrow> False"
| "fless_eq PInf PInf \<longleftrightarrow> True"
| "fless_eq PInf (Fin b) \<longleftrightarrow> False"
| "fless_eq PInf NInf \<longleftrightarrow> False"
| "fless_eq NInf (Fin b) \<longleftrightarrow> True"
| "fless_eq NInf PInf \<longleftrightarrow> True"
| "fless_eq NInf NInf \<longleftrightarrow> True"
| "fless_eq NaN y \<longleftrightarrow> False"
| "fless_eq x NaN \<longleftrightarrow> False"

instantiation float :: "{zero, one, plus, minus, uminus, times, inverse, ord}"
begin

definition zero_float_def: "0 = Fin 0"

definition one_float_def: "1 = Fin 1"

definition plus_float_def: "a + b = fadd a b"

definition uminus_float_def: "- a = fneg a"

definition minus_float_def: "a - b = fadd a (fneg b)"

definition times_float_def: "a * b = fmul a b"

definition divide_float_def: "a div b = fdiv a b"

definition inverse_float_def: "inverse a = fdiv (Fin 1) a"

definition less_float_def: "a < b \<longleftrightarrow> fless a b"

definition less_eq_float_def: "a \<le> b \<longleftrightarrow> fless_eq a b"

instance ..

end

text \<open>\<open>a != b\<close> on floats: NaN differs from everything, itself included.\<close>

definition float_ne :: "float \<Rightarrow> float \<Rightarrow> bool" where
  "float_ne a b \<longleftrightarrow> a = NaN \<or> b = NaN \<or> a \<noteq> b"

fun cosf :: "float \<Rightarrow> float" where
  "cosf (Fin a) = Fin (cos a)"
| "cosf x = NaN"

fun sinf :: "float \<Rightarrow> float" where
  "sinf (Fin a) = Fin (sin a)"
| "sinf x = NaN"

fun sqrtf :: "float \<Rightarrow> float" where
  "sqrtf (Fin a) = (if a < 0 then NaN else Fin (sqrt a))"
| "sqrtf PInf = PInf"
| "sqrtf x = NaN"

fun acosf :: "float \<Rightarrow> float" where
  "acosf (Fin a) = (if - 1 \<le> a \<and> a \<le> 1 then Fin (arccos a) else NaN)"
| "acosf x = NaN"

text \<open>The conversion of an \<open>int\<close> to \<open>float\<close>.\<close>

definition float_of_int :: "int \<Rightarrow> float" where
  "float_of_int k = rnd (real_of_int k)"

text \<open>The largest value of the source's 32-bit \<open>int\<close>.\<close>

definition INT_MAX :: int where
  "INT_MAX = 2147483647"

text \<open>
  \<open>isfinite\<close>, the real number a finite float stands for, and the values the type is
  meant to hold: a \<open>Fin x\<close> with \<open>x\<close> beyond \<open>FLT_MAX\<close> is no float, and no operation
  returns one.
\<close>

fun isfinite :: "float \<Rightarrow> bool" where
  "isfinite (Fin a) \<longleftrightarrow> \<bar>a\<bar> \<le> FLT_MAX"
| "isfinite x \<longleftrightarrow> False"

fun val :: "float \<Rightarrow> real" where
  "val (Fin a) = a"
| "val x = 0"

fun representable :: "float \<Rightarrow> bool" where
  "representable (Fin a) \<longleftrightarrow> \<bar>a\<bar> \<le> FLT_MAX"
| "representable x \<longleftrightarrow> True"

datatype error = UninitializedRead | OutOfRange

record torus =
  majorRadius :: "float option"
  minorRadius :: "float option"
  sectorCount :: int
  sideCount :: int
  smooth :: bool
  upAxis :: int
  vertices :: "float list"
  normals :: "float list"
  texCoords :: "float list"
  indices :: "nat list"
  lineIndices :: "nat list"
  interleavedVertices :: "float list"
  interleavedStride :: int

text \<open>The temporary vertex of \<open>buildVerticesFlat\<close>: \<open>struct Vertex { float x, y, z, s, t; }\<close>.\<close>

record Vertex =
  vertex_x :: float
  vertex_y :: float
  vertex_z :: float
  vertex_s :: float
  vertex_t :: float

definition MIN_SECTOR_COUNT :: int where
  "MIN_SECTOR_COUNT = 3"

definition MIN_SIDE_COUNT :: int where
  "MIN_SIDE_COUNT = 2"

definition PI :: float where
  "PI = acosf (- 1)"

definition EPSILON :: float where
  "EPSILON = Fin (1 / 1000000)"

subsection \<open>The loop forms of the source\<close>

text \<open>\<open>for (int i = a; i < n; ++i) body\<close>. The bodies of the source never write the bound.\<close>

function forLt :: "int \<Rightarrow> int \<Rightarrow> (int \<Rightarrow> 's \<Rightarrow> error + 's) \<Rightarrow> 's \<Rightarrow> error + 's" where
  "forLt i n body s =
     (if i < n then
        (case body i s of
           Inl e \<Rightarrow> Inl e
         | Inr s' \<Rightarrow> forLt (i + 1) n body s')
      else Inr s)"
  by pat_completeness auto

termination
  by (relation "measure (\<lambda>(i, n, body, s). nat (n - i))") auto

text \<open>\<open>for (int i = a; i <= n; ++i) body\<close>.\<close>

function forLe :: "int \<Rightarrow> int \<Rightarrow> (int \<Rightarrow> 's \<Rightarrow> error + 's) \<Rightarrow> 's \<Rightarrow> error + 's" where
  "forLe i n body s =
     (if i \<le> n then
        (case body i s of
           Inl e \<Rightarrow> Inl e
         | Inr s' \<Rightarrow> forLe (i + 1) n body s')
      else Inr s)"
  by pat_completeness auto

termination
  by (relation "measure (\<lambda>(i, n, body, s). nat (n + 1 - i))") auto

text \<open>
  \<open>for (i = i0, j = j0; i < count; i += 3, j += dj) body\<close> over \<open>std::size_t\<close>;
  a loop with the single counter \<open>i\<close> takes \<open>dj = 0\<close> and a body that ignores \<open>j\<close>.
\<close>

function forStride ::
  "nat \<Rightarrow> nat \<Rightarrow> (nat \<Rightarrow> nat \<Rightarrow> 's \<Rightarrow> error + 's) \<Rightarrow> nat \<Rightarrow> nat \<Rightarrow> 's \<Rightarrow> error + 's" where
  "forStride count dj body i j s =
     (if i < count then
        (case body i j s of
           Inl e \<Rightarrow> Inl e
         | Inr s' \<Rightarrow> forStride count dj body (i + 3) (j + dj) s')
      else Inr s)"
  by pat_completeness auto

termination
  by (relation "measure (\<lambda>(count, dj, body, i, j, s). count - i)") auto

declare forLt.simps [simp del]

declare forLe.simps [simp del]

declare forStride.simps [simp del]

subsection \<open>Appending to the arrays\<close>

definition addVertex :: "float \<Rightarrow> float \<Rightarrow> float \<Rightarrow> torus \<Rightarrow> torus" where
  "addVertex x y z t = t\<lparr>vertices := vertices t @ [x, y, z]\<rparr>"

definition addNormal :: "float \<Rightarrow> float \<Rightarrow> float \<Rightarrow> torus \<Rightarrow> torus" where
  "addNormal nx ny nz t = t\<lparr>normals := normals t @ [nx, ny, nz]\<rparr>"

definition addTexCoord :: "float \<Rightarrow> float \<Rightarrow> torus \<Rightarrow> torus" where
  "addTexCoord s u t = t\<lparr>texCoords := texCoords t @ [s, u]\<rparr>"

definition addIndices :: "nat \<Rightarrow> nat \<Rightarrow> nat \<Rightarrow> torus \<Rightarrow> torus" where
  "addIndices i1 i2 i3 t = t\<lparr>indices := indices t @ [i1, i2, i3]\<rparr>"

definition addLineIndex :: "nat \<Rightarrow> torus \<Rightarrow> torus" where
  "addLineIndex k t = t\<lparr>lineIndices := lineIndices t @ [k]\<rparr>"

definition clearArrays :: "torus \<Rightarrow> torus" where
  "clearArrays t =
     t\<lparr>vertices := [], normals := [], texCoords := [], indices := [], lineIndices := []\<rparr>"

subsection \<open>computeFaceNormal\<close>

definition computeFaceNormal ::
  "float \<Rightarrow> float \<Rightarrow> float \<Rightarrow> float \<Rightarrow> float \<Rightarrow> float \<Rightarrow> float \<Rightarrow> float \<Rightarrow> float \<Rightarrow> float list" where
  "computeFaceNormal x1 y1 z1 x2 y2 z2 x3 y3 z3 =
     (let normal = [0, 0, 0];
          ex1 = x2 - x1;
          ey1 = y2 - y1;
          ez1 = z2 - z1;
          ex2 = x3 - x1;
          ey2 = y3 - y1;
          ez2 = z3 - z1;
          nx = ey1 * ez2 - ez1 * ey2;
          ny = ez1 * ex2 - ex1 * ez2;
          nz = ex1 * ey2 - ey1 * ex2;
          length = sqrtf (nx * nx + ny * ny + nz * nz)
      in if length > EPSILON then
           (let lengthInv = 1 / length
            in normal[0 := nx * lengthInv, 1 := ny * lengthInv, 2 := nz * lengthInv])
         else normal)"

subsection \<open>buildInterleavedVertices\<close>

definition interleaveBody :: "nat \<Rightarrow> nat \<Rightarrow> torus \<Rightarrow> error + torus" where
  "interleaveBody i j t =
     (if i + 2 < length (vertices t) \<and> i + 2 < length (normals t) \<and> j + 1 < length (texCoords t)
      then Inr (t\<lparr>interleavedVertices := interleavedVertices t @
                 [vertices t ! i, vertices t ! (i + 1), vertices t ! (i + 2),
                  normals t ! i, normals t ! (i + 1), normals t ! (i + 2),
                  texCoords t ! j, texCoords t ! (j + 1)]\<rparr>)
      else Inl OutOfRange)"

definition buildInterleavedVertices :: "torus \<Rightarrow> error + torus" where
  "buildInterleavedVertices t =
     (let t0 = t\<lparr>interleavedVertices := []\<rparr>;
          count = length (vertices t0)
      in forStride count 2 interleaveBody 0 0 t0)"

subsection \<open>changeUpAxis\<close>

text \<open>The columns \<open>tx\<close>, \<open>ty\<close>, \<open>tz\<close> of the transform, after the assignments of the chosen branch.\<close>

definition axisColumns :: "int \<Rightarrow> int \<Rightarrow> float list \<times> float list \<times> float list" where
  "axisColumns from to =
     (let tx = [1, 0, 0];
          ty = [0, 1, 0];
          tz = [0, 0, 1]
      in if from = 1 \<and> to = 2 then (tx[0 := 0, 1 := 1], ty[0 := - 1, 1 := 0], tz)
         else if from = 1 \<and> to = 3 then (tx[0 := 0, 2 := 1], ty, tz[0 := - 1, 2 := 0])
         else if from = 2 \<and> to = 1 then (tx[0 := 0, 1 := - 1], ty[0 := 1, 1 := 0], tz)
         else if from = 2 \<and> to = 3 then (tx, ty[1 := 0, 2 := 1], tz[1 := - 1, 2 := 0])
         else if from = 3 \<and> to = 1 then (tx[0 := 0, 2 := - 1], ty, tz[0 := 1, 2 := 0])
         else (tx, ty[1 := 0, 2 := - 1], tz[1 := 1, 2 := 0]))"

definition axisBody :: "float list \<times> float list \<times> float list \<Rightarrow> nat \<Rightarrow> nat \<Rightarrow> torus \<Rightarrow> error + torus" where
  "axisBody cols i j t =
     (case cols of (tx, ty, tz) \<Rightarrow>
      if i + 2 < length (vertices t) \<and> i + 2 < length (normals t)
         \<and> j + 5 < length (interleavedVertices t)
      then
        (let vx = vertices t ! i;
             vy = vertices t ! (i + 1);
             vz = vertices t ! (i + 2);
             vs1 = (vertices t)
                     [i := tx ! 0 * vx + ty ! 0 * vy + tz ! 0 * vz,
                      i + 1 := tx ! 1 * vx + ty ! 1 * vy + tz ! 1 * vz,
                      i + 2 := tx ! 2 * vx + ty ! 2 * vy + tz ! 2 * vz];
             nx = normals t ! i;
             ny = normals t ! (i + 1);
             nz = normals t ! (i + 2);
             ns1 = (normals t)
                     [i := tx ! 0 * nx + ty ! 0 * ny + tz ! 0 * nz,
                      i + 1 := tx ! 1 * nx + ty ! 1 * ny + tz ! 1 * nz,
                      i + 2 := tx ! 2 * nx + ty ! 2 * ny + tz ! 2 * nz];
             iv1 = (interleavedVertices t)
                     [j := vs1 ! i, j + 1 := vs1 ! (i + 1), j + 2 := vs1 ! (i + 2),
                      j + 3 := ns1 ! i, j + 4 := ns1 ! (i + 1), j + 5 := ns1 ! (i + 2)]
         in Inr (t\<lparr>vertices := vs1, normals := ns1, interleavedVertices := iv1\<rparr>))
      else Inl OutOfRange)"

definition changeUpAxis :: "int \<Rightarrow> int \<Rightarrow> torus \<Rightarrow> error + torus" where
  "changeUpAxis from to t =
     (let cols = axisColumns from to;
          count = length (vertices t)
      in forStride count 8 (axisBody cols) 0 0 t)"

subsection \<open>reverseNormals\<close>

definition flipBody :: "nat \<Rightarrow> nat \<Rightarrow> torus \<Rightarrow> error + torus" where
  "flipBody i j t =
     (if i + 2 < length (normals t) \<and> j + 2 < length (interleavedVertices t)
      then
        (let ns0 = normals t;
             ns1 = ns0[i := ns0 ! i * (- 1)];
             ns2 = ns1[i + 1 := ns1 ! (i + 1) * (- 1)];
             ns3 = ns2[i + 2 := ns2 ! (i + 2) * (- 1)];
             iv1 = (interleavedVertices t)
                     [j := ns3 ! i, j + 1 := ns3 ! (i + 1), j + 2 := ns3 ! (i + 2)]
         in Inr (t\<lparr>normals := ns3, interleavedVertices := iv1\<rparr>))
      else Inl OutOfRange)"

definition windingBody :: "nat \<Rightarrow> nat \<Rightarrow> torus \<Rightarrow> error + torus" where
  "windingBody i j t =
     (if i + 2 < length (indices t)
      then
        (let tmp = indices t ! i;
             is1 = (indices t)[i := indices t ! (i + 2)];
             is2 = is1[i + 2 := tmp]
         in Inr (t\<lparr>indices := is2\<rparr>))
      else Inl OutOfRange)"

definition reverseNormals :: "torus \<Rightarrow> error + torus" where
  "reverseNormals t =
     (case forStride (length (normals t)) 8 flipBody 0 3 t of
        Inl e \<Rightarrow> Inl e
      | Inr t1 \<Rightarrow> forStride (length (indices t1)) 0 windingBody 0 0 t1)"

subsection \<open>buildVerticesSmooth\<close>

definition smoothSectorBody ::
  "float \<Rightarrow> float \<Rightarrow> float \<Rightarrow> float \<Rightarrow> int \<Rightarrow> int \<Rightarrow> torus \<Rightarrow> error + torus" where
  "smoothSectorBody lengthInv sectorStep xy z i j t =
     (case majorRadius t of
        None \<Rightarrow> Inl UninitializedRead
      | Some R \<Rightarrow>
        (let sectorAngle = float_of_int j * sectorStep;
             x = xy * cosf sectorAngle;
             y = xy * sinf sectorAngle;
             nx = x * lengthInv;
             ny = y * lengthInv;
             nz = z * lengthInv;
             t1 = addNormal nx ny nz t;
             x' = x + R * cosf sectorAngle;
             y' = y + R * sinf sectorAngle;
             t2 = addVertex x' y' z t1;
             s = float_of_int j / float_of_int (sectorCount t2);
             u = float_of_int i / float_of_int (sideCount t2)
         in Inr (addTexCoord s u t2)))"

definition smoothSideBody :: "float \<Rightarrow> float \<Rightarrow> float \<Rightarrow> int \<Rightarrow> torus \<Rightarrow> error + torus" where
  "smoothSideBody lengthInv sectorStep sideStep i t =
     (case minorRadius t of
        None \<Rightarrow> Inl UninitializedRead
      | Some r \<Rightarrow>
        (let sideAngle = PI - float_of_int i * sideStep;
             xy = r * cosf sideAngle;
             z = r * sinf sideAngle
         in forLe 0 (sectorCount t) (smoothSectorBody lengthInv sectorStep xy z i) t))"

text \<open>The state of the inner index loop is \<open>(k1, k2)\<close> and the object: \<open>++j, ++k1, ++k2\<close>.\<close>

definition smoothIndexBody :: "int \<Rightarrow> nat \<times> nat \<times> torus \<Rightarrow> error + nat \<times> nat \<times> torus" where
  "smoothIndexBody j st =
     (case st of (k1, k2, t) \<Rightarrow>
        (let t1 = addIndices k1 k2 (k1 + 1) t;
             t2 = addIndices (k1 + 1) k2 (k2 + 1) t1;
             t3 = addLineIndex k1 t2;
             t4 = addLineIndex k2 t3;
             t5 = addLineIndex k1 t4;
             t6 = addLineIndex (k1 + 1) t5
         in Inr (k1 + 1, k2 + 1, t6)))"

definition smoothIndexSideBody :: "int \<Rightarrow> torus \<Rightarrow> error + torus" where
  "smoothIndexSideBody i t =
     (let k1 = nat (i * (sectorCount t + 1));
          k2 = k1 + nat (sectorCount t) + 1
      in case forLt 0 (sectorCount t) smoothIndexBody (k1, k2, t) of
           Inl e \<Rightarrow> Inl e
         | Inr (k1', k2', t') \<Rightarrow> Inr t')"

definition buildVerticesSmooth :: "torus \<Rightarrow> error + torus" where
  "buildVerticesSmooth t =
     (let t0 = clearArrays t
      in case minorRadius t0 of
           None \<Rightarrow> Inl UninitializedRead
         | Some r \<Rightarrow>
           (let lengthInv = 1 / r;
                sectorStep = Fin 2 * PI / float_of_int (sectorCount t0);
                sideStep = Fin 2 * PI / float_of_int (sideCount t0)
            in case forLe 0 (sideCount t0) (smoothSideBody lengthInv sectorStep sideStep) t0 of
                 Inl e \<Rightarrow> Inl e
               | Inr t1 \<Rightarrow>
                 (case forLt 0 (sideCount t1) smoothIndexSideBody t1 of
                    Inl e \<Rightarrow> Inl e
                  | Inr t2 \<Rightarrow>
                    (case buildInterleavedVertices t2 of
                       Inl e \<Rightarrow> Inl e
                     | Inr t3 \<Rightarrow>
                       if upAxis t3 \<noteq> 3 then changeUpAxis 3 (upAxis t3) t3 else Inr t3))))"

subsection \<open>buildVerticesFlat\<close>

definition flatTmpSectorBody ::
  "torus \<Rightarrow> float \<Rightarrow> float \<Rightarrow> float \<Rightarrow> int \<Rightarrow> int \<Rightarrow> Vertex list \<Rightarrow> error + Vertex list" where
  "flatTmpSectorBody t sectorStep xy z i j tmpVertices =
     (let sectorAngle = float_of_int j * sectorStep;
          vertex = \<lparr>vertex_x = xy * cosf sectorAngle,
                    vertex_y = xy * sinf sectorAngle,
                    vertex_z = z,
                    vertex_s = float_of_int j / float_of_int (sectorCount t),
                    vertex_t = float_of_int i / float_of_int (sideCount t)\<rparr>
      in Inr (tmpVertices @ [vertex]))"

definition flatTmpSideBody ::
  "torus \<Rightarrow> float \<Rightarrow> float \<Rightarrow> int \<Rightarrow> Vertex list \<Rightarrow> error + Vertex list" where
  "flatTmpSideBody t sectorStep sideStep i tmpVertices =
     (case majorRadius t of
        None \<Rightarrow> Inl UninitializedRead
      | Some R \<Rightarrow>
        (case minorRadius t of
           None \<Rightarrow> Inl UninitializedRead
         | Some r \<Rightarrow>
           (let sideAngle = PI - float_of_int i * sideStep;
                xy = R + r * cosf sideAngle;
                z = r * sinf sideAngle
            in forLe 0 (sectorCount t) (flatTmpSectorBody t sectorStep xy z i) tmpVertices)))"

text \<open>\<open>for (k = 0; k < 4; ++k) addNormal(n[0], n[1], n[2])\<close>.\<close>

definition addFaceNormals :: "float list \<Rightarrow> torus \<Rightarrow> error + torus" where
  "addFaceNormals n t = forLt 0 4 (\<lambda>k t'. Inr (addNormal (n ! 0) (n ! 1) (n ! 2) t')) t"

text \<open>The state of the inner quad loop is \<open>(vi1, vi2, index)\<close> and the object.\<close>

definition flatQuadBody ::
  "Vertex list \<Rightarrow> int \<Rightarrow> int \<times> int \<times> int \<times> torus \<Rightarrow> error + int \<times> int \<times> int \<times> torus" where
  "flatQuadBody tmpVertices j st =
     (case st of (vi1, vi2, index, t) \<Rightarrow>
      if 0 \<le> vi1 \<and> 0 \<le> vi2 \<and> vi1 + 1 < int (length tmpVertices)
         \<and> vi2 + 1 < int (length tmpVertices)
      then
        (let v1 = tmpVertices ! nat vi1;
             v2 = tmpVertices ! nat vi2;
             v3 = tmpVertices ! nat (vi1 + 1);
             v4 = tmpVertices ! nat (vi2 + 1);
             t1 = addVertex (vertex_x v1) (vertex_y v1) (vertex_z v1) t;
             t2 = addVertex (vertex_x v2) (vertex_y v2) (vertex_z v2) t1;
             t3 = addVertex (vertex_x v3) (vertex_y v3) (vertex_z v3) t2;
             t4 = addVertex (vertex_x v4) (vertex_y v4) (vertex_z v4) t3;
             t5 = addTexCoord (vertex_s v1) (vertex_t v1) t4;
             t6 = addTexCoord (vertex_s v2) (vertex_t v2) t5;
             t7 = addTexCoord (vertex_s v3) (vertex_t v3) t6;
             t8 = addTexCoord (vertex_s v4) (vertex_t v4) t7;
             n = computeFaceNormal (vertex_x v1) (vertex_y v1) (vertex_z v1) (vertex_x v2) (vertex_y v2) (vertex_z v2)
                   (vertex_x v3) (vertex_y v3) (vertex_z v3)
         in case addFaceNormals n t8 of
              Inl e \<Rightarrow> Inl e
            | Inr t9 \<Rightarrow>
              (let t10 = addIndices (nat index) (nat (index + 1)) (nat (index + 2)) t9;
                   t11 = addIndices (nat (index + 2)) (nat (index + 1)) (nat (index + 3)) t10;
                   t12 = addLineIndex (nat index) t11;
                   t13 = addLineIndex (nat (index + 1)) t12;
                   t14 = addLineIndex (nat index) t13;
                   t15 = addLineIndex (nat (index + 2)) t14
               in Inr (vi1 + 1, vi2 + 1, index + 4, t15)))
      else Inl OutOfRange)"

definition flatSideBody :: "Vertex list \<Rightarrow> int \<Rightarrow> int \<times> torus \<Rightarrow> error + int \<times> torus" where
  "flatSideBody tmpVertices i st =
     (case st of (index, t) \<Rightarrow>
        (let vi1 = i * (sectorCount t + 1);
             vi2 = (i + 1) * (sectorCount t + 1)
         in case forLt 0 (sectorCount t) (flatQuadBody tmpVertices) (vi1, vi2, index, t) of
              Inl e \<Rightarrow> Inl e
            | Inr (vi1', vi2', index', t') \<Rightarrow> Inr (index', t')))"

definition buildVerticesFlat :: "torus \<Rightarrow> error + torus" where
  "buildVerticesFlat t =
     (let sectorStep = Fin 2 * PI / float_of_int (sectorCount t);
          sideStep = Fin 2 * PI / float_of_int (sideCount t)
      in case forLe 0 (sideCount t) (flatTmpSideBody t sectorStep sideStep) [] of
           Inl e \<Rightarrow> Inl e
         | Inr tmpVertices \<Rightarrow>
           (let t0 = clearArrays t
            in case forLt 0 (sideCount t0) (flatSideBody tmpVertices) (0, t0) of
                 Inl e \<Rightarrow> Inl e
               | Inr (index, t1) \<Rightarrow>
                 (case buildInterleavedVertices t1 of
                    Inl e \<Rightarrow> Inl e
                  | Inr t2 \<Rightarrow>
                    if upAxis t2 \<noteq> 3 then changeUpAxis 3 (upAxis t2) t2 else Inr t2)))"

subsection \<open>The constructor and the setters\<close>

text \<open>\<open>Torus::set\<close> (the name \<open>set\<close> is taken by lists).\<close>

definition Torus_set_members ::
  "float \<Rightarrow> float \<Rightarrow> int \<Rightarrow> int \<Rightarrow> bool \<Rightarrow> int \<Rightarrow> torus \<Rightarrow> torus" where
  "Torus_set_members majorR minorR sectors sides smooth' up t =
     (let t1 = (if majorR > 0 then t\<lparr>majorRadius := Some majorR\<rparr> else t);
          t2 = (if minorR > 0 then t1\<lparr>minorRadius := Some minorR\<rparr> else t1);
          t3 = t2\<lparr>sectorCount := sectors\<rparr>;
          t4 = (if sectors < MIN_SECTOR_COUNT then t3\<lparr>sectorCount := MIN_SECTOR_COUNT\<rparr> else t3);
          t5 = t4\<lparr>sideCount := sides\<rparr>;
          t6 = (if sides < MIN_SIDE_COUNT then t5\<lparr>sideCount := MIN_SIDE_COUNT\<rparr> else t5);
          t7 = t6\<lparr>smooth := smooth'\<rparr>;
          t8 = t7\<lparr>upAxis := up\<rparr>;
          t9 = (if up < 1 \<or> up > 3 then t8\<lparr>upAxis := 3\<rparr> else t8)
      in t9)"

definition Torus_set ::
  "float \<Rightarrow> float \<Rightarrow> int \<Rightarrow> int \<Rightarrow> bool \<Rightarrow> int \<Rightarrow> torus \<Rightarrow> error + torus" where
  "Torus_set majorR minorR sectors sides smooth' up t =
     (let t9 = Torus_set_members majorR minorR sectors sides smooth' up t
      in if smooth' then buildVerticesSmooth t9 else buildVerticesFlat t9)"

text \<open>
  The object when the constructor's body starts: the vectors are empty,
  \<open>interleavedStride\<close> is 32 by the initializer list, and no other member has been
  assigned. \<open>set\<close> assigns \<open>sectorCount\<close>, \<open>sideCount\<close>, \<open>smooth\<close> and \<open>upAxis\<close>
  before anything reads them, so their entries here are never observed.
\<close>

definition unconstructed :: torus where
  "unconstructed =
     \<lparr>majorRadius = None, minorRadius = None, sectorCount = 0, sideCount = 0,
      smooth = False, upAxis = 0, vertices = [], normals = [], texCoords = [],
      indices = [], lineIndices = [], interleavedVertices = [], interleavedStride = 32\<rparr>"

definition Torus :: "float \<Rightarrow> float \<Rightarrow> int \<Rightarrow> int \<Rightarrow> bool \<Rightarrow> int \<Rightarrow> error + torus" where
  "Torus majorR minorR sectors sides smooth' up =
     Torus_set majorR minorR sectors sides smooth' up unconstructed"

definition setMajorRadius :: "float \<Rightarrow> torus \<Rightarrow> error + torus" where
  "setMajorRadius radius t =
     (case majorRadius t of
        None \<Rightarrow> Inl UninitializedRead
      | Some R \<Rightarrow>
        if float_ne radius R then
          (case minorRadius t of
             None \<Rightarrow> Inl UninitializedRead
           | Some r \<Rightarrow> Torus_set radius r (sectorCount t) (sideCount t) (smooth t) (upAxis t) t)
        else Inr t)"

definition setMinorRadius :: "float \<Rightarrow> torus \<Rightarrow> error + torus" where
  "setMinorRadius radius t =
     (case minorRadius t of
        None \<Rightarrow> Inl UninitializedRead
      | Some r \<Rightarrow>
        if float_ne radius r then
          (case majorRadius t of
             None \<Rightarrow> Inl UninitializedRead
           | Some R \<Rightarrow> Torus_set R radius (sectorCount t) (sideCount t) (smooth t) (upAxis t) t)
        else Inr t)"

definition setSectorCount :: "int \<Rightarrow> torus \<Rightarrow> error + torus" where
  "setSectorCount sectors t =
     (if sectors \<noteq> sectorCount t then
        (case majorRadius t of
           None \<Rightarrow> Inl UninitializedRead
         | Some R \<Rightarrow>
           (case minorRadius t of
              None \<Rightarrow> Inl UninitializedRead
            | Some r \<Rightarrow> Torus_set R r sectors (sideCount t) (smooth t) (upAxis t) t))
      else Inr t)"

definition setSideCount :: "int \<Rightarrow> torus \<Rightarrow> error + torus" where
  "setSideCount sides t =
     (if sides \<noteq> sideCount t then
        (case majorRadius t of
           None \<Rightarrow> Inl UninitializedRead
         | Some R \<Rightarrow>
           (case minorRadius t of
              None \<Rightarrow> Inl UninitializedRead
            | Some r \<Rightarrow> Torus_set R r (sectorCount t) sides (smooth t) (upAxis t) t))
      else Inr t)"

definition setSmooth :: "bool \<Rightarrow> torus \<Rightarrow> error + torus" where
  "setSmooth smooth' t =
     (if smooth t = smooth' then Inr t
      else
        (let t1 = t\<lparr>smooth := smooth'\<rparr>
         in if smooth' then buildVerticesSmooth t1 else buildVerticesFlat t1))"

definition setUpAxis :: "int \<Rightarrow> torus \<Rightarrow> error + torus" where
  "setUpAxis up t =
     (if upAxis t = up \<or> up < 1 \<or> up > 3 then Inr t
      else
        (case changeUpAxis (upAxis t) up t of
           Inl e \<Rightarrow> Inl e
         | Inr t1 \<Rightarrow> Inr (t1\<lparr>upAxis := up\<rparr>)))"

subsection \<open>The read accessors\<close>

definition getVertexCount :: "torus \<Rightarrow> nat" where
  "getVertexCount t = length (vertices t) div 3"

definition getNormalCount :: "torus \<Rightarrow> nat" where
  "getNormalCount t = length (normals t) div 3"

definition getTexCoordCount :: "torus \<Rightarrow> nat" where
  "getTexCoordCount t = length (texCoords t) div 2"

definition getIndexCount :: "torus \<Rightarrow> nat" where
  "getIndexCount t = length (indices t)"


definition getTriangleCount :: "torus \<Rightarrow> nat" where
  "getTriangleCount t = getIndexCount t div 3"

definition getInterleavedVertexCount :: "torus \<Rightarrow> nat" where
  "getInterleavedVertexCount t = getVertexCount t"

definition getInterleavedStride :: "torus \<Rightarrow> int" where
  "getInterleavedStride t = interleavedStride t"

subsection \<open>Reading the arrays by vertex\<close>

text \<open>
  The three floats of entry \<open>q\<close> of a position or normal array (or the three indices of
  triangle \<open>q\<close>), the two floats of entry \<open>q\<close> of the texture coordinate array, and the
  eight floats of record \<open>q\<close> of the interleaved array, grouped as position, normal and
  texture coordinate.
\<close>

definition triple :: "'a list \<Rightarrow> nat \<Rightarrow> 'a \<times> 'a \<times> 'a" where
  "triple xs q = (xs ! (3 * q), xs ! (3 * q + 1), xs ! (3 * q + 2))"

definition couple :: "'a list \<Rightarrow> nat \<Rightarrow> 'a \<times> 'a" where
  "couple xs q = (xs ! (2 * q), xs ! (2 * q + 1))"

definition record8 :: "'a list \<Rightarrow> nat \<Rightarrow> ('a \<times> 'a \<times> 'a) \<times> ('a \<times> 'a \<times> 'a) \<times> ('a \<times> 'a)" where
  "record8 xs q = ((xs ! (8 * q), xs ! (8 * q + 1), xs ! (8 * q + 2)),
                (xs ! (8 * q + 3), xs ! (8 * q + 4), xs ! (8 * q + 5)),
                (xs ! (8 * q + 6), xs ! (8 * q + 7)))"

text \<open>
  \<open>shaped\<close>: the three attribute arrays hold whole entries for the same number of
  vertices. \<open>synced\<close>: moreover the interleaved array holds one record per vertex, and
  record \<open>q\<close> is the position, the normal and the texture coordinate of vertex \<open>q\<close>.
\<close>

definition shaped :: "torus \<Rightarrow> bool" where
  "shaped t \<longleftrightarrow>
     length (vertices t) = 3 * getVertexCount t \<and>
     length (normals t) = 3 * getVertexCount t \<and>
     length (texCoords t) = 2 * getVertexCount t"

definition synced :: "torus \<Rightarrow> bool" where
  "synced t \<longleftrightarrow>
     shaped t \<and>
     length (interleavedVertices t) = 8 * getVertexCount t \<and>
     (\<forall>q < getVertexCount t.
        record8 (interleavedVertices t) q =
          (triple (vertices t) q, triple (normals t) q, couple (texCoords t) q))"

definition applyColumns ::
  "float list \<times> float list \<times> float list \<Rightarrow> float \<times> float \<times> float \<Rightarrow> float \<times> float \<times> float" where
  "applyColumns cols v =
     (case cols of (tx, ty, tz) \<Rightarrow>
      case v of (x, y, z) \<Rightarrow>
        (tx ! 0 * x + ty ! 0 * y + tz ! 0 * z,
         tx ! 1 * x + ty ! 1 * y + tz ! 1 * z,
         tx ! 2 * x + ty ! 2 * y + tz ! 2 * z))"

definition negate3 :: "float \<times> float \<times> float \<Rightarrow> float \<times> float \<times> float" where
  "negate3 v = (case v of (x, y, z) \<Rightarrow> (- x, - y, - z))"

definition swap13 :: "'a \<times> 'a \<times> 'a \<Rightarrow> 'a \<times> 'a \<times> 'a" where
  "swap13 v = (case v of (a, b, c) \<Rightarrow> (c, b, a))"

definition sameParameters :: "torus \<Rightarrow> torus \<Rightarrow> bool" where
  "sameParameters t t' \<longleftrightarrow>
     majorRadius t' = majorRadius t \<and> minorRadius t' = minorRadius t \<and>
     sectorCount t' = sectorCount t \<and> sideCount t' = sideCount t \<and>
     smooth t' = smooth t \<and> upAxis t' = upAxis t \<and>
     interleavedStride t' = interleavedStride t"

definition faceNormal3 ::
  "float \<times> float \<times> float \<Rightarrow> float \<times> float \<times> float \<Rightarrow> float \<times> float \<times> float \<Rightarrow> float \<times> float \<times> float" where
  "faceNormal3 p1 p2 p3 =
     (case p1 of (x1, y1, z1) \<Rightarrow>
      case p2 of (x2, y2, z2) \<Rightarrow>
      case p3 of (x3, y3, z3) \<Rightarrow>
        triple (computeFaceNormal x1 y1 z1 x2 y2 z2 x3 y3 z3) 0)"

definition flatQuads :: "float list \<Rightarrow> float list \<Rightarrow> nat \<Rightarrow> bool" where
  "flatQuads vs ns Q \<longleftrightarrow>
     (\<forall>q < Q. \<forall>c < 4. triple ns (4 * q + c) =
        faceNormal3 (triple vs (4 * q)) (triple vs (4 * q + 1)) (triple vs (4 * q + 2)))"

definition validParameters :: "torus \<Rightarrow> bool" where
  "validParameters t \<longleftrightarrow>
     (case majorRadius t of None \<Rightarrow> False | Some R \<Rightarrow> 0 < R) \<and>
     (case minorRadius t of None \<Rightarrow> False | Some r \<Rightarrow> 0 < r) \<and>
     3 \<le> sectorCount t \<and> 2 \<le> sideCount t \<and> 1 \<le> upAxis t \<and> upAxis t \<le> 3"

definition meshCounts :: "torus \<Rightarrow> bool" where
  "meshCounts t \<longleftrightarrow>
     getVertexCount t =
       (if smooth t then nat (sideCount t + 1) * nat (sectorCount t + 1)
        else 4 * (nat (sideCount t) * nat (sectorCount t))) \<and>
     length (indices t) = 6 * (nat (sideCount t) * nat (sectorCount t)) \<and>
     length (lineIndices t) = 4 * (nat (sideCount t) * nat (sectorCount t))"

definition indicesInRange :: "torus \<Rightarrow> bool" where
  "indicesInRange t \<longleftrightarrow>
     (\<forall>x \<in> set (indices t). x < getVertexCount t) \<and>
     (\<forall>x \<in> set (lineIndices t). x < getVertexCount t)"

definition meshInv :: "torus \<Rightarrow> bool" where
  "meshInv t \<longleftrightarrow>
     validParameters t \<and> synced t \<and> meshCounts t \<and> indicesInRange t \<and>
     list_all representable (normals t)"

definition torusInv :: "torus \<Rightarrow> bool" where
  "torusInv t \<longleftrightarrow> meshInv t \<and> interleavedStride t = 32"

text \<open>
  The objects a program can hold: the results of the constructor, closed under the
  public member functions that change the object.
\<close>

inductive reachable :: "torus \<Rightarrow> bool" where
  constructed: "Torus majorR minorR sectors sides sm up = Inr t \<Longrightarrow> reachable t"
| after_set: "reachable t \<Longrightarrow> Torus_set majorR minorR sectors sides sm up t = Inr t'
    \<Longrightarrow> reachable t'"
| after_setMajorRadius: "reachable t \<Longrightarrow> setMajorRadius radius t = Inr t' \<Longrightarrow> reachable t'"
| after_setMinorRadius: "reachable t \<Longrightarrow> setMinorRadius radius t = Inr t' \<Longrightarrow> reachable t'"
| after_setSectorCount: "reachable t \<Longrightarrow> setSectorCount sectors t = Inr t' \<Longrightarrow> reachable t'"
| after_setSideCount: "reachable t \<Longrightarrow> setSideCount sides t = Inr t' \<Longrightarrow> reachable t'"
| after_setSmooth: "reachable t \<Longrightarrow> setSmooth sm t = Inr t' \<Longrightarrow> reachable t'"
| after_setUpAxis: "reachable t \<Longrightarrow> setUpAxis up t = Inr t' \<Longrightarrow> reachable t'"
| after_reverseNormals: "reachable t \<Longrightarrow> reverseNormals t = Inr t' \<Longrightarrow> reachable t'"

text \<open>
  The Euclidean length of a vector of finite floats, as a real number, and the vectors
  and the meshes whose floats are all finite.
\<close>

definition vectorLength :: "float \<times> float \<times> float \<Rightarrow> real" where
  "vectorLength v =
     (case v of (x, y, z) \<Rightarrow> sqrt (val x * val x + val y * val y + val z * val z))"

definition finite3 :: "float \<times> float \<times> float \<Rightarrow> bool" where
  "finite3 v = (case v of (x, y, z) \<Rightarrow> isfinite x \<and> isfinite y \<and> isfinite z)"

definition finiteMesh :: "torus \<Rightarrow> bool" where
  "finiteMesh t \<longleftrightarrow> list_all isfinite (vertices t) \<and> list_all isfinite (normals t)"

section \<open>Properties\<close>

subsection \<open>Float arithmetic\<close>

lemma FLT_MAX_pos: "0 < FLT_MAX" "1 \<le> FLT_MAX" "0 \<le> FLT_MAX"
  by (simp_all add: FLT_MAX_def)

lemma float_consts: "(0::float) = Fin 0" "(1::float) = Fin 1"
  by (simp_all add: zero_float_def one_float_def)

lemma float_neg [simp]:
  "- Fin a = Fin (- a)" "- PInf = NInf" "- NInf = PInf" "- NaN = NaN"
  by (simp_all add: uminus_float_def)

lemma float_fin_arith [simp]:
  "Fin a + Fin b = rnd (a + b)"
  "Fin a - Fin b = rnd (a - b)"
  "Fin a * Fin b = rnd (a * b)"
  "b \<noteq> 0 \<Longrightarrow> Fin a / Fin b = rnd (a / b)"
  by (simp_all add: plus_float_def minus_float_def times_float_def divide_float_def)

lemma float_nan_arith [simp]:
  "NaN + x = NaN" "x + NaN = NaN" "NaN - x = NaN" "x - NaN = NaN"
  "NaN * x = NaN" "x * NaN = NaN" "NaN / x = NaN" "x / NaN = NaN"
  by (cases x; simp add: plus_float_def minus_float_def times_float_def divide_float_def)+

lemma float_inf_mult [simp]:
  "Fin a * PInf = (if a = 0 then NaN else if 0 < a then PInf else NInf)"
  "Fin a * NInf = (if a = 0 then NaN else if 0 < a then NInf else PInf)"
  "PInf * Fin b = (if b = 0 then NaN else if 0 < b then PInf else NInf)"
  "NInf * Fin b = (if b = 0 then NaN else if 0 < b then NInf else PInf)"
  "PInf * PInf = PInf" "PInf * NInf = NInf" "NInf * PInf = NInf" "NInf * NInf = PInf"
  by (simp_all add: times_float_def)

lemma float_inf_add [simp]:
  "Fin a + PInf = PInf" "Fin a + NInf = NInf" "PInf + Fin b = PInf" "NInf + Fin b = NInf"
  "PInf + PInf = PInf" "NInf + NInf = NInf" "PInf + NInf = NaN" "NInf + PInf = NaN"
  "Fin a - PInf = NInf" "Fin a - NInf = PInf" "PInf - Fin b = PInf" "NInf - Fin b = NInf"
  "PInf - PInf = NaN" "NInf - NInf = NaN" "PInf - NInf = PInf" "NInf - PInf = NInf"
  by (simp_all add: plus_float_def minus_float_def)

lemma float_inf_div [simp]:
  "Fin a / PInf = Fin 0" "Fin a / NInf = Fin 0"
  "PInf / Fin b = (if 0 \<le> b then PInf else NInf)"
  "NInf / Fin b = (if 0 \<le> b then NInf else PInf)"
  "PInf / PInf = NaN" "PInf / NInf = NaN" "NInf / PInf = NaN" "NInf / NInf = NaN"
  "Fin a / Fin 0 = (if a = 0 then NaN else if 0 < a then PInf else NInf)"
  by (simp_all add: divide_float_def)

lemma float_less [simp]:
  "Fin a < Fin b \<longleftrightarrow> a < b" "Fin a < PInf" "\<not> Fin a < NInf" "\<not> PInf < x"
  "NInf < Fin b" "NInf < PInf" "\<not> NInf < NInf" "\<not> NaN < x" "\<not> x < NaN"
  by (cases x; simp add: less_float_def)+

lemma float_less_eq [simp]:
  "Fin a \<le> Fin b \<longleftrightarrow> a \<le> b" "Fin a \<le> PInf" "\<not> Fin a \<le> NInf" "PInf \<le> PInf"
  "\<not> PInf \<le> Fin b" "\<not> PInf \<le> NInf" "NInf \<le> Fin b" "NInf \<le> PInf" "NInf \<le> NInf"
  "\<not> NaN \<le> x" "\<not> x \<le> NaN"
  by (cases x; simp add: less_eq_float_def)+

lemma float_le_not_less: "x \<le> (y::float) \<Longrightarrow> \<not> y < x"
  by (cases x; cases y) simp_all

lemma rnd_fin: "\<bar>x\<bar> \<le> FLT_MAX \<Longrightarrow> rnd x = Fin x"
  by (auto simp: rnd_def)

lemma rnd_cases:
  obtains "rnd x = Fin x" "\<bar>x\<bar> \<le> FLT_MAX" | "rnd x = PInf" | "rnd x = NInf"
  by (cases "FLT_MAX < x"; cases "x < - FLT_MAX") (auto simp: rnd_def)

lemma representable_rnd [simp]: "representable (rnd x)"
  by (rule rnd_cases[of x]) simp_all

lemma representable_arith [simp]:
  "representable (x + y)" "representable (x - y)" "representable (x * y)"
  by (cases x; cases y; simp)+

lemma representable_div [simp]: "representable (x / y)"
proof (cases x; cases y)
  fix a b assume "x = Fin a" "y = Fin b"
  then show ?thesis by (cases "b = 0") simp_all
qed (simp_all add: FLT_MAX_pos)

lemma representable_neg [simp]: "representable (- x) \<longleftrightarrow> representable x"
  by (cases x) simp_all

lemma representable_consts [simp]:
  "representable (Fin 0)" "representable (Fin 1)" "representable 0" "representable 1"
  using FLT_MAX_pos by (simp_all add: float_consts)

lemma representable_cosf [simp]: "representable (cosf x)"
proof (cases x)
  case (Fin a)
  have "\<bar>cos a\<bar> \<le> 1" by (rule abs_cos_le_one)
  with FLT_MAX_pos(2) have "\<bar>cos a\<bar> \<le> FLT_MAX" by (rule order_trans[rotated])
  with Fin show ?thesis by simp
qed simp_all

lemma representable_sinf [simp]: "representable (sinf x)"
proof (cases x)
  case (Fin a)
  have "\<bar>sin a\<bar> \<le> 1" by (rule abs_sin_le_one)
  with FLT_MAX_pos(2) have "\<bar>sin a\<bar> \<le> FLT_MAX" by (rule order_trans[rotated])
  with Fin show ?thesis by simp
qed simp_all

lemma float_of_int_representable [simp]: "representable (float_of_int k)"
  by (simp add: float_of_int_def)

lemma float_neg_neg [simp]: "- (- x) = (x::float)"
  by (cases x) simp_all

lemma float_mult_minus_one: "representable x \<Longrightarrow> x * (- 1) = - x"
  by (cases x) (simp_all add: rnd_fin float_consts)

lemma isfinite_representable: "isfinite x \<Longrightarrow> representable x"
  by (cases x) simp_all

lemma isfiniteE:
  assumes "isfinite x"
  obtains a where "x = Fin a" "\<bar>a\<bar> \<le> FLT_MAX"
  using assms by (cases x) simp_all

subsection \<open>Loops\<close>

lemma PI_eq: "PI = Fin pi"
  by (simp add: PI_def float_consts)

lemma forLe_rule:
  "I i s \<Longrightarrow> (\<And>k s. i \<le> k \<Longrightarrow> k \<le> n \<Longrightarrow> I k s \<Longrightarrow> \<exists>s'. body k s = Inr s' \<and> I (k + 1) s')
   \<Longrightarrow> \<exists>s'. forLe i n body s = Inr s' \<and> I (max i (n + 1)) s'"
proof (induction i n body s rule: forLe.induct)
  case (1 i n body s)
  show ?case
  proof (cases "i \<le> n")
    case True
    from 1(3)[of i s] True 1(2) obtain s1 where b: "body i s = Inr s1" and I1: "I (i + 1) s1"
      by auto
    have step: "\<And>k s. i + 1 \<le> k \<Longrightarrow> k \<le> n \<Longrightarrow> I k s \<Longrightarrow> \<exists>s'. body k s = Inr s' \<and> I (k + 1) s'"
      using 1(3) by simp
    from 1(1)[OF True b I1 step] obtain s' where
      "forLe (i + 1) n body s1 = Inr s'" "I (max (i + 1) (n + 1)) s'" by blast
    with True b show ?thesis
      by (subst forLe.simps) (simp add: max_def)
  next
    case False
    then have "max i (n + 1) = i" by simp
    with False 1(2) show ?thesis
      by (subst forLe.simps) simp
  qed
qed

lemma forStride_rule:
  "I k s \<Longrightarrow> k \<le> n
   \<Longrightarrow> (\<And>k s. k < n \<Longrightarrow> I k s \<Longrightarrow> \<exists>s'. body (3 * k) (jb + dj * k) s = Inr s' \<and> I (k + 1) s')
   \<Longrightarrow> \<exists>s'. forStride (3 * n) dj body (3 * k) (jb + dj * k) s = Inr s' \<and> I n s'"
proof (induction "n - k" arbitrary: k s)
  case 0
  then have "k = n" by simp
  with 0 show ?case by (subst forStride.simps) simp
next
  case (Suc d)
  then have lt: "k < n" by simp
  from Suc(5)[OF lt Suc(3)] obtain s1 where
    b: "body (3 * k) (jb + dj * k) s = Inr s1" and I1: "I (k + 1) s1" by blast
  have "d = n - (k + 1)" using Suc(2) by simp
  from Suc(1)[OF this I1 _ Suc(5)] lt obtain s' where
    "forStride (3 * n) dj body (3 * (k + 1)) (jb + dj * (k + 1)) s1 = Inr s'" "I n s'"
    by auto
  with lt b show ?case
    by (subst forStride.simps) (simp add: algebra_simps)
qed

lemma forLt_Inl: "i < n \<Longrightarrow> body i s = Inl e \<Longrightarrow> forLt i n body s = Inl e"
  by (subst forLt.simps) simp

lemma forLe_Inl: "i \<le> n \<Longrightarrow> body i s = Inl e \<Longrightarrow> forLe i n body s = Inl e"
  by (subst forLe.simps) simp

lemma length_concat_uniform:
  "(\<And>x. x \<in> set xs \<Longrightarrow> length (f x) = m) \<Longrightarrow> length (concat (map f xs)) = length xs * m"
  by (induction xs) auto

lemma nth_concat_uniform:
  "(\<And>x. x \<in> set xs \<Longrightarrow> length (f x) = m) \<Longrightarrow> a < length xs \<Longrightarrow> b < m
   \<Longrightarrow> concat (map f xs) ! (a * m + b) = f (xs ! a) ! b"
proof (induction xs arbitrary: a)
  case Nil
  then show ?case by simp
next
  case (Cons x xs)
  show ?case
  proof (cases a)
    case 0
    with Cons show ?thesis by (simp add: nth_append)
  next
    case (Suc a')
    with Cons have "concat (map f xs) ! (a' * m + b) = f (xs ! a') ! b" by simp
    moreover have "length (f x) = m" using Cons by simp
    ultimately show ?thesis using Suc by (simp add: nth_append)
  qed
qed

lemma triple_update:
  "3 * k + 2 < length xs \<Longrightarrow>
   triple (xs[3 * k := a, 3 * k + 1 := b, 3 * k + 2 := c]) q = (if q = k then (a, b, c) else triple xs q)"
  by (auto simp: triple_def nth_list_update)

lemma record8_append_old: "length xs = 8 * k \<Longrightarrow> q < k \<Longrightarrow> record8 (xs @ ys) q = record8 xs q"
  by (simp add: record8_def nth_append)

lemma record8_append_new:
  "length xs = 8 * k \<Longrightarrow>
   record8 (xs @ [a0, a1, a2, b0, b1, b2, c0, c1]) k = ((a0, a1, a2), (b0, b1, b2), (c0, c1))"
  by (simp add: record8_def nth_append)

lemma shapedI:
  "length (vertices t) = 3 * n \<Longrightarrow> length (normals t) = 3 * n \<Longrightarrow> length (texCoords t) = 2 * n
   \<Longrightarrow> shaped t \<and> getVertexCount t = n"
  by (simp add: shaped_def getVertexCount_def)

lemma buildInterleavedVertices_shaped:
  assumes "shaped t"
  shows "\<exists>iv. buildInterleavedVertices t = Inr (t\<lparr>interleavedVertices := iv\<rparr>)
              \<and> synced (t\<lparr>interleavedVertices := iv\<rparr>)"
proof -
  define n where "n = getVertexCount t"
  define t0 where "t0 = t\<lparr>interleavedVertices := []\<rparr>"
  define I where "I = (\<lambda>k s. \<exists>iv. s = t\<lparr>interleavedVertices := iv\<rparr> \<and> length iv = 8 * k
     \<and> (\<forall>q < k. record8 iv q = (triple (vertices t) q, triple (normals t) q, couple (texCoords t) q)))"
  have len: "length (vertices t) = 3 * n" "length (normals t) = 3 * n" "length (texCoords t) = 2 * n"
    using assms by (simp_all add: shaped_def n_def)
  have init: "I 0 t0" by (simp add: I_def t0_def)
  have step: "\<exists>s'. interleaveBody (3 * k) (0 + 2 * k) s = Inr s' \<and> I (k + 1) s'"
    if "k < n" "I k s" for k s
  proof -
    from that(2) obtain iv where s: "s = t\<lparr>interleavedVertices := iv\<rparr>" and l: "length iv = 8 * k"
      and r: "\<forall>q < k. record8 iv q = (triple (vertices t) q, triple (normals t) q, couple (texCoords t) q)"
      by (auto simp: I_def)
    let ?b = "[vertices t ! (3 * k), vertices t ! (3 * k + 1), vertices t ! (3 * k + 2),
               normals t ! (3 * k), normals t ! (3 * k + 1), normals t ! (3 * k + 2),
               texCoords t ! (2 * k), texCoords t ! (2 * k + 1)]"
    have body: "interleaveBody (3 * k) (0 + 2 * k) s = Inr (t\<lparr>interleavedVertices := iv @ ?b\<rparr>)"
      using that(1) len by (simp add: interleaveBody_def s)
    have "record8 (iv @ ?b) q = (triple (vertices t) q, triple (normals t) q, couple (texCoords t) q)"
      if "q < k + 1" for q
    proof (cases "q < k")
      case True
      then show ?thesis using r l by (simp add: record8_append_old)
    next
      case False
      with that have "q = k" by simp
      then show ?thesis using l by (simp add: record8_append_new triple_def couple_def)
    qed
    then have "I (k + 1) (t\<lparr>interleavedVertices := iv @ ?b\<rparr>)"
      using l by (auto simp: I_def)
    with body show ?thesis by blast
  qed
  from forStride_rule[where I = I and k = 0 and n = n and s = t0 and body = interleaveBody
      and jb = 0 and dj = 2, OF init _ step]
  obtain s' where run: "forStride (3 * n) 2 interleaveBody 0 0 t0 = Inr s'" and fin: "I n s'"
    by auto
  from fin obtain iv where s': "s' = t\<lparr>interleavedVertices := iv\<rparr>" and l: "length iv = 8 * n"
    and r: "\<forall>q < n. record8 iv q = (triple (vertices t) q, triple (normals t) q, couple (texCoords t) q)"
    by (auto simp: I_def)
  have "buildInterleavedVertices t = Inr (t\<lparr>interleavedVertices := iv\<rparr>)"
    using run s' len by (simp add: buildInterleavedVertices_def t0_def)
  moreover have "synced (t\<lparr>interleavedVertices := iv\<rparr>)"
    using assms l r by (simp add: synced_def shaped_def getVertexCount_def n_def)
  ultimately show ?thesis by blast
qed

lemma list3_eqI:
  assumes "length xs = 3 * n" "length ys = 3 * n" "\<And>q. q < n \<Longrightarrow> triple xs q = triple ys q"
  shows "xs = ys"
proof (rule nth_equalityI)
  show "length xs = length ys" using assms by simp
next
  fix i assume "i < length xs"
  then have q: "i div 3 < n" using assms(1) by simp
  have "i mod 3 = 0 \<or> i mod 3 = 1 \<or> i mod 3 = 2" by arith
  moreover have "i = 3 * (i div 3) + i mod 3" by simp
  ultimately have "i = 3 * (i div 3) \<or> i = 3 * (i div 3) + 1 \<or> i = 3 * (i div 3) + 2" by arith
  with assms(3)[OF q] show "xs ! i = ys ! i"
    by (auto simp: triple_def)
qed

lemma list8_eqI:
  assumes "length xs = 8 * n" "length ys = 8 * n" "\<And>q. q < n \<Longrightarrow> record8 xs q = record8 ys q"
  shows "xs = ys"
proof (rule nth_equalityI)
  show "length xs = length ys" using assms by simp
next
  fix i assume "i < length xs"
  then have q: "i div 8 < n" using assms(1) by simp
  have "i mod 8 = 0 \<or> i mod 8 = 1 \<or> i mod 8 = 2 \<or> i mod 8 = 3 \<or> i mod 8 = 4
        \<or> i mod 8 = 5 \<or> i mod 8 = 6 \<or> i mod 8 = 7" by arith
  moreover have "i = 8 * (i div 8) + i mod 8" by simp
  ultimately have "i = 8 * (i div 8) \<or> i = 8 * (i div 8) + 1 \<or> i = 8 * (i div 8) + 2
     \<or> i = 8 * (i div 8) + 3 \<or> i = 8 * (i div 8) + 4 \<or> i = 8 * (i div 8) + 5
     \<or> i = 8 * (i div 8) + 6 \<or> i = 8 * (i div 8) + 7" by arith
  with assms(3)[OF q] show "xs ! i = ys ! i"
    by (auto simp: record8_def)
qed

lemma set_triples:
  assumes "length xs = 3 * m" "x \<in> set xs"
  shows "\<exists>q < m. x = fst (triple xs q) \<or> x = fst (snd (triple xs q))
                 \<or> x = snd (snd (triple xs q))"
proof -
  from assms(2) obtain i where i: "i < length xs" "x = xs ! i"
    by (auto simp: in_set_conv_nth)
  then have q: "i div 3 < m" using assms(1) by simp
  have "i mod 3 = 0 \<or> i mod 3 = 1 \<or> i mod 3 = 2" by arith
  moreover have "i = 3 * (i div 3) + i mod 3" by simp
  ultimately have "i = 3 * (i div 3) \<or> i = 3 * (i div 3) + 1 \<or> i = 3 * (i div 3) + 2"
    by arith
  with i(2) have "x = fst (triple xs (i div 3)) \<or> x = fst (snd (triple xs (i div 3)))
                 \<or> x = snd (snd (triple xs (i div 3)))"
    by (auto simp: triple_def)
  with q show ?thesis by blast
qed

lemma triple_in_set:
  assumes "length xs = 3 * m" "q < m"
  shows "fst (triple xs q) \<in> set xs" "fst (snd (triple xs q)) \<in> set xs"
    "snd (snd (triple xs q)) \<in> set xs"
  using assms by (simp_all add: triple_def)

lemma list_all_triples:
  assumes "length xs = 3 * m"
    and "\<And>q. q < m \<Longrightarrow> P (fst (triple xs q)) \<and> P (fst (snd (triple xs q)))
                          \<and> P (snd (snd (triple xs q)))"
  shows "list_all P xs"
  unfolding list_all_iff
proof
  fix x assume "x \<in> set xs"
  from set_triples[OF assms(1) this] obtain q where "q < m"
    "x = fst (triple xs q) \<or> x = fst (snd (triple xs q)) \<or> x = snd (snd (triple xs q))"
    by blast
  with assms(2)[of q] show "P x" by auto
qed

lemma list_all_tripleD:
  assumes "list_all P xs" "length xs = 3 * m" "q < m"
  shows "P (fst (triple xs q))" "P (fst (snd (triple xs q)))" "P (snd (snd (triple xs q)))"
  using assms triple_in_set[OF assms(2,3)] by (auto simp: list_all_iff)

lemma synced_unique:
  "synced t \<Longrightarrow> synced t' \<Longrightarrow> vertices t' = vertices t \<Longrightarrow> normals t' = normals t
   \<Longrightarrow> texCoords t' = texCoords t \<Longrightarrow> interleavedVertices t' = interleavedVertices t"
  by (rule list8_eqI[where n = "getVertexCount t"]) (auto simp: synced_def getVertexCount_def)

lemma record8_update6:
  "8 * k + 7 < length xs \<Longrightarrow>
   record8 (xs[8 * k := a0, 8 * k + 1 := a1, 8 * k + 2 := a2,
               8 * k + 3 := b0, 8 * k + 4 := b1, 8 * k + 5 := b2]) q =
     (if q = k then ((a0, a1, a2), (b0, b1, b2), snd (snd (record8 xs k))) else record8 xs q)"
  by (auto simp: record8_def nth_list_update)

lemma record8_update3:
  "8 * k + 7 < length xs \<Longrightarrow>
   record8 (xs[8 * k + 3 := b0, 8 * k + 4 := b1, 8 * k + 5 := b2]) q =
     (if q = k then (fst (record8 xs k), (b0, b1, b2), snd (snd (record8 xs k))) else record8 xs q)"
  by (auto simp: record8_def nth_list_update)

lemma triple_update13:
  "3 * k + 2 < length xs \<Longrightarrow>
   triple (xs[3 * k := a, 3 * k + 2 := c]) q =
     (if q = k then (a, xs ! (3 * k + 1), c) else triple xs q)"
  by (auto simp: triple_def nth_list_update)

lemma changeUpAxis_synced:
  assumes "synced t"
  shows "\<exists>vs ns iv. changeUpAxis from to t
            = Inr (t\<lparr>vertices := vs, normals := ns, interleavedVertices := iv\<rparr>)
          \<and> synced (t\<lparr>vertices := vs, normals := ns, interleavedVertices := iv\<rparr>)
          \<and> length vs = length (vertices t) \<and> length ns = length (normals t)
          \<and> (\<forall>q < getVertexCount t.
                triple vs q = applyColumns (axisColumns from to) (triple (vertices t) q)
              \<and> triple ns q = applyColumns (axisColumns from to) (triple (normals t) q))"
proof -
  define n where "n = getVertexCount t"
  define cols where "cols = axisColumns from to"
  obtain tx ty tz where cols3: "cols = (tx, ty, tz)" by (cases cols) auto
  define I where "I = (\<lambda>k s. \<exists>vs ns iv.
       s = t\<lparr>vertices := vs, normals := ns, interleavedVertices := iv\<rparr>
     \<and> length vs = 3 * n \<and> length ns = 3 * n \<and> length iv = 8 * n
     \<and> (\<forall>q < n. triple vs q = (if q < k then applyColumns cols (triple (vertices t) q)
                                else triple (vertices t) q))
     \<and> (\<forall>q < n. triple ns q = (if q < k then applyColumns cols (triple (normals t) q)
                                else triple (normals t) q))
     \<and> (\<forall>q < n. record8 iv q = (triple vs q, triple ns q, couple (texCoords t) q)))"
  have len: "length (vertices t) = 3 * n" "length (normals t) = 3 * n"
    "length (texCoords t) = 2 * n" "length (interleavedVertices t) = 8 * n"
    and rec: "\<forall>q < n. record8 (interleavedVertices t) q
                = (triple (vertices t) q, triple (normals t) q, couple (texCoords t) q)"
    using assms by (simp_all add: synced_def shaped_def n_def)
  have "t = t\<lparr>vertices := vertices t, normals := normals t,
              interleavedVertices := interleavedVertices t\<rparr>" by simp
  then have init: "I 0 t"
    unfolding I_def using len rec by (intro exI[of _ "vertices t"] exI[of _ "normals t"]
        exI[of _ "interleavedVertices t"]) simp
  have step: "\<exists>s'. axisBody cols (3 * k) (0 + 8 * k) s = Inr s' \<and> I (k + 1) s'"
    if "k < n" "I k s" for k s
  proof -
    from that(2) obtain vs ns iv where
      s: "s = t\<lparr>vertices := vs, normals := ns, interleavedVertices := iv\<rparr>"
      and l: "length vs = 3 * n" "length ns = 3 * n" "length iv = 8 * n"
      and v: "\<forall>q < n. triple vs q = (if q < k then applyColumns cols (triple (vertices t) q)
                                else triple (vertices t) q)"
      and nn: "\<forall>q < n. triple ns q = (if q < k then applyColumns cols (triple (normals t) q)
                                else triple (normals t) q)"
      and r: "\<forall>q < n. record8 iv q = (triple vs q, triple ns q, couple (texCoords t) q)"
      unfolding I_def by blast
    define a where "a = applyColumns cols (triple vs k)"
    define b where "b = applyColumns cols (triple ns k)"
    obtain a0 a1 a2 where a3: "a = (a0, a1, a2)" by (cases a) auto
    obtain b0 b1 b2 where b3: "b = (b0, b1, b2)" by (cases b) auto
    define vs1 where "vs1 = vs[3 * k := a0, 3 * k + 1 := a1, 3 * k + 2 := a2]"
    define ns1 where "ns1 = ns[3 * k := b0, 3 * k + 1 := b1, 3 * k + 2 := b2]"
    define iv1 where "iv1 = iv[8 * k := a0, 8 * k + 1 := a1, 8 * k + 2 := a2,
                               8 * k + 3 := b0, 8 * k + 4 := b1, 8 * k + 5 := b2]"
    have inr: "3 * k + 2 < length vs" "3 * k + 2 < length ns" "8 * k + 7 < length iv"
      using that(1) l by simp_all
    have body: "axisBody cols (3 * k) (0 + 8 * k) s
                  = Inr (t\<lparr>vertices := vs1, normals := ns1, interleavedVertices := iv1\<rparr>)"
      using inr a3 b3
      by (simp add: axisBody_def cols3 s Let_def vs1_def ns1_def iv1_def a_def b_def
          applyColumns_def triple_def)
    have tv: "triple vs k = triple (vertices t) k" and tn: "triple ns k = triple (normals t) k"
      using v nn that(1) by simp_all
    have tv1: "triple vs1 q = (if q = k then (a0, a1, a2) else triple vs q)" for q
      unfolding vs1_def by (rule triple_update[OF inr(1)])
    have tn1: "triple ns1 q = (if q = k then (b0, b1, b2) else triple ns q)" for q
      unfolding ns1_def by (rule triple_update[OF inr(2)])
    have ti1: "record8 iv1 q = (if q = k then ((a0, a1, a2), (b0, b1, b2), snd (snd (record8 iv k)))
                                else record8 iv q)" for q
      unfolding iv1_def by (rule record8_update6[OF inr(3)])
    have v1: "\<forall>q < n. triple vs1 q = (if q < k + 1 then applyColumns cols (triple (vertices t) q)
                                else triple (vertices t) q)"
      using v a3 tv that(1) by (auto simp: tv1 a_def)
    have n1: "\<forall>q < n. triple ns1 q = (if q < k + 1 then applyColumns cols (triple (normals t) q)
                                else triple (normals t) q)"
      using nn b3 tn that(1) by (auto simp: tn1 b_def)
    have r1: "\<forall>q < n. record8 iv1 q = (triple vs1 q, triple ns1 q, couple (texCoords t) q)"
      using r that(1) by (auto simp: tv1 tn1 ti1)
    have "I (k + 1) (t\<lparr>vertices := vs1, normals := ns1, interleavedVertices := iv1\<rparr>)"
      unfolding I_def using v1 n1 r1 l
      by (intro exI[of _ vs1] exI[of _ ns1] exI[of _ iv1]) (simp add: vs1_def ns1_def iv1_def)
    with body show ?thesis by blast
  qed
  from forStride_rule[where I = I and k = 0 and n = n and s = t and body = "axisBody cols"
      and jb = 0 and dj = 8, OF init _ step]
  obtain s' where run: "forStride (3 * n) 8 (axisBody cols) 0 0 t = Inr s'" and fin: "I n s'"
    by auto
  from fin obtain vs ns iv where
      s: "s' = t\<lparr>vertices := vs, normals := ns, interleavedVertices := iv\<rparr>"
      and l: "length vs = 3 * n" "length ns = 3 * n" "length iv = 8 * n"
      and v: "\<forall>q < n. triple vs q = applyColumns cols (triple (vertices t) q)"
      and nn: "\<forall>q < n. triple ns q = applyColumns cols (triple (normals t) q)"
      and r: "\<forall>q < n. record8 iv q = (triple vs q, triple ns q, couple (texCoords t) q)"
    unfolding I_def by auto
  have "changeUpAxis from to t = Inr (t\<lparr>vertices := vs, normals := ns, interleavedVertices := iv\<rparr>)"
    using run s len by (simp add: changeUpAxis_def cols_def)
  moreover have "synced (t\<lparr>vertices := vs, normals := ns, interleavedVertices := iv\<rparr>)"
    using l r len by (simp add: synced_def shaped_def getVertexCount_def)
  ultimately show ?thesis using l len v nn unfolding n_def cols_def
    by (intro exI[of _ vs] exI[of _ ns] exI[of _ iv]) simp
qed

lemma applyColumns_representable:
  "representable (fst (applyColumns cols v))"
  "representable (fst (snd (applyColumns cols v)))"
  "representable (snd (snd (applyColumns cols v)))"
  by (cases cols; cases v; simp add: applyColumns_def)+

lemma triple_map: "3 * q + 2 < length xs \<Longrightarrow> triple (map f xs) q =
    (case triple xs q of (a, b, c) \<Rightarrow> (f a, f b, f c))"
  by (simp add: triple_def)

lemma flip_loop:
  assumes "synced t" "list_all representable (normals t)"
  shows "\<exists>iv. forStride (length (normals t)) 8 flipBody 0 3 t
            = Inr (t\<lparr>normals := map uminus (normals t), interleavedVertices := iv\<rparr>)
          \<and> synced (t\<lparr>normals := map uminus (normals t), interleavedVertices := iv\<rparr>)"
proof -
  define n where "n = getVertexCount t"
  define I where "I = (\<lambda>k s. \<exists>ns iv.
       s = t\<lparr>normals := ns, interleavedVertices := iv\<rparr>
     \<and> length ns = 3 * n \<and> length iv = 8 * n
     \<and> (\<forall>q < n. triple ns q = (if q < k then negate3 (triple (normals t) q)
                                else triple (normals t) q))
     \<and> (\<forall>q < n. record8 iv q = (triple (vertices t) q, triple ns q, couple (texCoords t) q)))"
  have len: "length (vertices t) = 3 * n" "length (normals t) = 3 * n"
    "length (texCoords t) = 2 * n" "length (interleavedVertices t) = 8 * n"
    and rec: "\<forall>q < n. record8 (interleavedVertices t) q
                = (triple (vertices t) q, triple (normals t) q, couple (texCoords t) q)"
    using assms by (simp_all add: synced_def shaped_def n_def)
  have "t = t\<lparr>normals := normals t, interleavedVertices := interleavedVertices t\<rparr>" by simp
  then have init: "I 0 t"
    unfolding I_def using len rec
    by (intro exI[of _ "normals t"] exI[of _ "interleavedVertices t"]) simp
  have step: "\<exists>s'. flipBody (3 * k) (3 + 8 * k) s = Inr s' \<and> I (k + 1) s'"
    if "k < n" "I k s" for k s
  proof -
    from that(2) obtain ns iv where
      s: "s = t\<lparr>normals := ns, interleavedVertices := iv\<rparr>"
      and l: "length ns = 3 * n" "length iv = 8 * n"
      and nn: "\<forall>q < n. triple ns q = (if q < k then negate3 (triple (normals t) q)
                                else triple (normals t) q)"
      and r: "\<forall>q < n. record8 iv q = (triple (vertices t) q, triple ns q, couple (texCoords t) q)"
      unfolding I_def by blast
    define b0 where "b0 = - (ns ! (3 * k))"
    define b1 where "b1 = - (ns ! (3 * k + 1))"
    define b2 where "b2 = - (ns ! (3 * k + 2))"
    define ns1 where "ns1 = ns[3 * k := b0, 3 * k + 1 := b1, 3 * k + 2 := b2]"
    define iv1 where "iv1 = iv[8 * k + 3 := b0, 8 * k + 4 := b1, 8 * k + 5 := b2]"
    have inr: "3 * k + 2 < length ns" "8 * k + 7 < length iv"
      using that(1) l by simp_all
    have tn: "triple ns k = triple (normals t) k"
      using nn that(1) by simp
    have rp: "representable (fst (triple ns k))" "representable (fst (snd (triple ns k)))"
      "representable (snd (snd (triple ns k)))"
      unfolding tn by (rule list_all_tripleD[OF assms(2) len(2) that(1)])+
    then have rn: "ns ! (3 * k) * (- 1) = b0" "ns ! (3 * k + 1) * (- 1) = b1"
      "ns ! (3 * k + 2) * (- 1) = b2"
      by (simp_all add: triple_def b0_def b1_def b2_def float_mult_minus_one)
    have body: "flipBody (3 * k) (3 + 8 * k) s
                  = Inr (t\<lparr>normals := ns1, interleavedVertices := iv1\<rparr>)"
      using inr rn
      by (simp add: flipBody_def s Let_def ns1_def iv1_def add.commute)
    have b: "negate3 (triple ns k) = (b0, b1, b2)"
      by (simp add: negate3_def triple_def b0_def b1_def b2_def)
    have tn1: "triple ns1 q = (if q = k then (b0, b1, b2) else triple ns q)" for q
      unfolding ns1_def by (rule triple_update[OF inr(1)])
    have ti1: "record8 iv1 q = (if q = k then (fst (record8 iv k), (b0, b1, b2), snd (snd (record8 iv k)))
                                else record8 iv q)" for q
      unfolding iv1_def by (rule record8_update3[OF inr(2)])
    have n1: "\<forall>q < n. triple ns1 q = (if q < k + 1 then negate3 (triple (normals t) q)
                                else triple (normals t) q)"
      using nn b tn that(1) by (auto simp: tn1)
    have r1: "\<forall>q < n. record8 iv1 q = (triple (vertices t) q, triple ns1 q, couple (texCoords t) q)"
      using r that(1) by (auto simp: tn1 ti1)
    have "I (k + 1) (t\<lparr>normals := ns1, interleavedVertices := iv1\<rparr>)"
      unfolding I_def using n1 r1 l
      by (intro exI[of _ ns1] exI[of _ iv1]) (simp add: ns1_def iv1_def)
    with body show ?thesis by blast
  qed
  from forStride_rule[where I = I and k = 0 and n = n and s = t and body = flipBody
      and jb = 3 and dj = 8, OF init _ step]
  obtain s' where run: "forStride (3 * n) 8 flipBody 0 3 t = Inr s'" and fin: "I n s'"
    by auto
  from fin obtain ns iv where
      s: "s' = t\<lparr>normals := ns, interleavedVertices := iv\<rparr>"
      and l: "length ns = 3 * n" "length iv = 8 * n"
      and nn: "\<forall>q < n. triple ns q = negate3 (triple (normals t) q)"
      and r: "\<forall>q < n. record8 iv q = (triple (vertices t) q, triple ns q, couple (texCoords t) q)"
    unfolding I_def by auto
  have "ns = map uminus (normals t)"
  proof (rule list3_eqI[where n = n])
    fix q assume "q < n"
    then show "triple ns q = triple (map uminus (normals t)) q"
      using nn len by (simp add: triple_map negate3_def split: prod.splits)
  qed (use l len in simp_all)
  with run s len r l show ?thesis
    by (intro exI[of _ iv]) (simp add: synced_def shaped_def getVertexCount_def)
qed

lemma winding_loop:
  assumes "length (indices t) = 3 * m"
  shows "\<exists>is. forStride (length (indices t)) 0 windingBody 0 0 t = Inr (t\<lparr>indices := is\<rparr>)
          \<and> length is = 3 * m \<and> (\<forall>q < m. triple is q = swap13 (triple (indices t) q))"
proof -
  define I where "I = (\<lambda>k s. \<exists>is. s = t\<lparr>indices := is\<rparr> \<and> length is = 3 * m
     \<and> (\<forall>q < m. triple is q = (if q < k then swap13 (triple (indices t) q)
                                else triple (indices t) q)))"
  have "t = t\<lparr>indices := indices t\<rparr>" by simp
  then have init: "I 0 t"
    unfolding I_def using assms by (intro exI[of _ "indices t"]) simp
  have step: "\<exists>s'. windingBody (3 * k) (0 + 0 * k) s = Inr s' \<and> I (k + 1) s'"
    if "k < m" "I k s" for k s
  proof -
    from that(2) obtain xs where s: "s = t\<lparr>indices := xs\<rparr>" and l: "length xs = 3 * m"
      and x: "\<forall>q < m. triple xs q = (if q < k then swap13 (triple (indices t) q)
                                else triple (indices t) q)"
      unfolding I_def by blast
    define xs1 where "xs1 = xs[3 * k := xs ! (3 * k + 2), 3 * k + 2 := xs ! (3 * k)]"
    have inr: "3 * k + 2 < length xs" using that(1) l by simp
    have body: "windingBody (3 * k) (0 + 0 * k) s = Inr (t\<lparr>indices := xs1\<rparr>)"
      using inr by (simp add: windingBody_def s Let_def xs1_def)
    have tk: "triple xs k = triple (indices t) k" using x that(1) by simp
    have sw: "swap13 (triple xs k) = (xs ! (3 * k + 2), xs ! (3 * k + 1), xs ! (3 * k))"
      by (simp add: swap13_def triple_def)
    have t1: "triple xs1 q = (if q = k then (xs ! (3 * k + 2), xs ! (3 * k + 1), xs ! (3 * k))
                              else triple xs q)" for q
      unfolding xs1_def by (rule triple_update13[OF inr])
    have "\<forall>q < m. triple xs1 q = (if q < k + 1 then swap13 (triple (indices t) q)
                                else triple (indices t) q)"
      using x sw tk that(1) by (auto simp: t1)
    then have "I (k + 1) (t\<lparr>indices := xs1\<rparr>)"
      unfolding I_def using l by (intro exI[of _ xs1]) (simp add: xs1_def)
    with body show ?thesis by blast
  qed
  from forStride_rule[where I = I and k = 0 and n = m and s = t and body = windingBody
      and jb = 0 and dj = 0, OF init _ step]
  obtain s' where run: "forStride (3 * m) 0 windingBody 0 0 t = Inr s'" and fin: "I m s'"
    by auto
  from fin obtain xs where s: "s' = t\<lparr>indices := xs\<rparr>" and l: "length xs = 3 * m"
    and x: "\<forall>q < m. triple xs q = swap13 (triple (indices t) q)"
    unfolding I_def by auto
  with run assms show ?thesis by (intro exI[of _ xs]) simp
qed

lemma reverseNormals_synced:
  assumes "synced t" "list_all representable (normals t)" "length (indices t) = 3 * m"
  shows "\<exists>iv is. reverseNormals t
            = Inr (t\<lparr>normals := map uminus (normals t), interleavedVertices := iv, indices := is\<rparr>)
          \<and> synced (t\<lparr>normals := map uminus (normals t), interleavedVertices := iv, indices := is\<rparr>)
          \<and> length is = 3 * m \<and> (\<forall>q < m. triple is q = swap13 (triple (indices t) q))"
proof -
  from flip_loop[OF assms(1,2)] obtain iv where
    f: "forStride (length (normals t)) 8 flipBody 0 3 t
            = Inr (t\<lparr>normals := map uminus (normals t), interleavedVertices := iv\<rparr>)"
    and sy: "synced (t\<lparr>normals := map uminus (normals t), interleavedVertices := iv\<rparr>)"
    by blast
  let ?t1 = "t\<lparr>normals := map uminus (normals t), interleavedVertices := iv\<rparr>"
  have "length (indices ?t1) = 3 * m" using assms(3) by simp
  from winding_loop[OF this] obtain xs where
    w: "forStride (length (indices ?t1)) 0 windingBody 0 0 ?t1 = Inr (?t1\<lparr>indices := xs\<rparr>)"
    and l: "length xs = 3 * m" and x: "\<forall>q < m. triple xs q = swap13 (triple (indices ?t1) q)"
    by blast
  have "reverseNormals t = Inr (?t1\<lparr>indices := xs\<rparr>)"
    using f w by (simp add: reverseNormals_def)
  moreover have "synced (?t1\<lparr>indices := xs\<rparr>)"
    using sy by (simp add: synced_def shaped_def getVertexCount_def)
  ultimately show ?thesis using l x
    by (intro exI[of _ iv] exI[of _ xs]) simp
qed

lemma triple_append_old: "3 * q + 2 < length xs \<Longrightarrow> triple (xs @ ys) q = triple xs q"
  by (simp add: triple_def nth_append)

lemma triple_append_shift: "length xs = 3 * a \<Longrightarrow> triple (xs @ ys) (a + q) = triple ys q"
  by (simp add: triple_def nth_append algebra_simps)

lemma triple_single: "triple [a, b, c] 0 = (a, b, c)"
  by (simp add: triple_def)

lemma grid_index:
  "0 \<le> i \<Longrightarrow> 0 \<le> j \<Longrightarrow> 0 \<le> sc \<Longrightarrow> nat (i * (sc + 1) + j) = nat i * nat (sc + 1) + nat j"
  by (simp add: nat_add_distrib nat_mult_distrib)

lemma grid_bound:
  assumes "0 \<le> i'" "i' < k" "0 \<le> j" "j \<le> sc"
  shows "nat i' * nat (sc + 1) + nat j < nat k * nat (sc + 1)"
proof -
  have "nat i' * nat (sc + 1) + nat j < nat i' * nat (sc + 1) + nat (sc + 1)"
    using assms by simp
  also have "\<dots> = (nat i' + 1) * nat (sc + 1)" by simp
  also have "\<dots> \<le> nat k * nat (sc + 1)"
    using assms by (intro mult_le_mono1) simp
  finally show ?thesis .
qed

lemma grid_vertex_bound:
  assumes "0 \<le> i" "i \<le> sd" "0 \<le> j" "j \<le> sc"
  shows "nat (i * (sc + 1) + j) < nat (sd + 1) * nat (sc + 1)"
proof -
  have "nat (i * (sc + 1) + j) = nat i * nat (sc + 1) + nat j"
    using assms by (simp add: grid_index)
  moreover have "nat i * nat (sc + 1) + nat j < nat (sd + 1) * nat (sc + 1)"
    using assms by (intro grid_bound) simp_all
  ultimately show ?thesis by simp
qed

lemma grid_vertex_cover:
  assumes "q < nat (sd + 1) * nat (sc + 1)" "0 \<le> sc"
  shows "\<exists>i j. 0 \<le> i \<and> i \<le> sd \<and> 0 \<le> j \<and> j \<le> sc \<and> q = nat (i * (sc + 1) + j)"
proof -
  define w where "w = nat (sc + 1)"
  have w0: "0 < w" using assms(2) by (simp add: w_def)
  define i where "i = int (q div w)"
  define j where "j = int (q mod w)"
  have "q div w < nat (sd + 1)"
    using assms(1) w0 by (simp add: w_def less_mult_imp_div_less)
  then have i: "0 \<le> i" "i \<le> sd" by (simp_all add: i_def)
  have "q mod w < w" using w0 by simp
  then have j: "0 \<le> j" "j \<le> sc" by (simp_all add: j_def w_def)
  have "nat (i * (sc + 1) + j) = nat i * nat (sc + 1) + nat j"
    using i j assms(2) by (simp add: grid_index)
  also have "\<dots> = q div w * w + q mod w" by (simp add: i_def j_def w_def)
  also have "\<dots> = q" by simp
  finally show ?thesis using i j by metis
qed

lemma smooth_sector_loop:
  assumes "majorRadius t = Some R" "0 \<le> sectorCount t"
  shows "\<exists>ns vs ts. forLe 0 (sectorCount t) (smoothSectorBody li ss xy z i) t
           = Inr (t\<lparr>normals := normals t @ ns, vertices := vertices t @ vs,
                    texCoords := texCoords t @ ts\<rparr>)
         \<and> length ns = 3 * nat (sectorCount t + 1)
         \<and> length vs = 3 * nat (sectorCount t + 1)
         \<and> length ts = 2 * nat (sectorCount t + 1)
         \<and> (\<forall>j. 0 \<le> j \<and> j \<le> sectorCount t \<longrightarrow>
               triple ns (nat j) = (xy * cosf (float_of_int j * ss) * li,
                                   xy * sinf (float_of_int j * ss) * li, z * li)
             \<and> triple vs (nat j) = (xy * cosf (float_of_int j * ss) + R * cosf (float_of_int j * ss),
                                   xy * sinf (float_of_int j * ss) + R * sinf (float_of_int j * ss), z))"
proof -
  define sc where "sc = sectorCount t"
  define I where "I = (\<lambda>k s. \<exists>ns vs ts.
       s = t\<lparr>normals := normals t @ ns, vertices := vertices t @ vs,
             texCoords := texCoords t @ ts\<rparr>
     \<and> length ns = 3 * nat k \<and> length vs = 3 * nat k \<and> length ts = 2 * nat k
     \<and> (\<forall>j. 0 \<le> j \<and> j < k \<longrightarrow>
           triple ns (nat j) = (xy * cosf (float_of_int j * ss) * li,
                               xy * sinf (float_of_int j * ss) * li, z * li)
         \<and> triple vs (nat j) = (xy * cosf (float_of_int j * ss) + R * cosf (float_of_int j * ss),
                               xy * sinf (float_of_int j * ss) + R * sinf (float_of_int j * ss), z)))"
  have init: "I 0 t"
    unfolding I_def by (intro exI[of _ "[]"]) auto
  have step: "\<exists>s'. smoothSectorBody li ss xy z i k s = Inr s' \<and> I (k + 1) s'"
    if "0 \<le> k" "k \<le> sc" "I k s" for k s
  proof -
    from that(3) obtain ns vs ts where
      s: "s = t\<lparr>normals := normals t @ ns, vertices := vertices t @ vs,
                texCoords := texCoords t @ ts\<rparr>"
      and l: "length ns = 3 * nat k" "length vs = 3 * nat k" "length ts = 2 * nat k"
      and e: "\<forall>j. 0 \<le> j \<and> j < k \<longrightarrow>
           triple ns (nat j) = (xy * cosf (float_of_int j * ss) * li,
                               xy * sinf (float_of_int j * ss) * li, z * li)
         \<and> triple vs (nat j) = (xy * cosf (float_of_int j * ss) + R * cosf (float_of_int j * ss),
                               xy * sinf (float_of_int j * ss) + R * sinf (float_of_int j * ss), z)"
      unfolding I_def by blast
    define a where "a = float_of_int k * ss"
    define nb where "nb = [xy * cosf a * li, xy * sinf a * li, z * li]"
    define vb where "vb = [xy * cosf a + R * cosf a, xy * sinf a + R * sinf a, z]"
    define tb where "tb = [float_of_int k / float_of_int (sectorCount t),
                           float_of_int i / float_of_int (sideCount t)]"
    have body: "smoothSectorBody li ss xy z i k s
        = Inr (t\<lparr>normals := normals t @ (ns @ nb), vertices := vertices t @ (vs @ vb),
                 texCoords := texCoords t @ (ts @ tb)\<rparr>)"
      using assms(1)
      by (simp add: smoothSectorBody_def s Let_def addNormal_def addVertex_def addTexCoord_def
          nb_def vb_def tb_def a_def)
    have nk: "nat (k + 1) = nat k + 1" using that(1) by simp
    have el: "triple (ns @ nb) (nat j) = (xy * cosf (float_of_int j * ss) * li,
                               xy * sinf (float_of_int j * ss) * li, z * li)
         \<and> triple (vs @ vb) (nat j)
             = (xy * cosf (float_of_int j * ss) + R * cosf (float_of_int j * ss),
                xy * sinf (float_of_int j * ss) + R * sinf (float_of_int j * ss), z)"
      if j: "0 \<le> j" "j < k + 1" for j
    proof (cases "j < k")
      case True
      then have "3 * nat j + 2 < length ns" "3 * nat j + 2 < length vs" using l j by simp_all
      then show ?thesis using e j True by (simp add: triple_append_old)
    next
      case False
      with j have "j = k" by simp
      then show ?thesis
        using triple_append_shift[of ns "nat k" nb 0] triple_append_shift[of vs "nat k" vb 0] l
        by (simp add: nb_def vb_def triple_single a_def)
    qed
    have "I (k + 1) (t\<lparr>normals := normals t @ (ns @ nb), vertices := vertices t @ (vs @ vb),
                 texCoords := texCoords t @ (ts @ tb)\<rparr>)"
      unfolding I_def using l el nk
      by (intro exI[of _ "ns @ nb"] exI[of _ "vs @ vb"] exI[of _ "ts @ tb"])
         (simp add: nb_def vb_def tb_def)
    with body show ?thesis by blast
  qed
  from forLe_rule[where I = I and i = 0 and n = sc and s = t
      and body = "smoothSectorBody li ss xy z i", OF init step]
  obtain s' where run: "forLe 0 sc (smoothSectorBody li ss xy z i) t = Inr s'"
    and fin: "I (max 0 (sc + 1)) s'"
    by auto
  have "max 0 (sc + 1) = sc + 1" using assms(2) by (simp add: sc_def)
  with fin have "I (sc + 1) s'" by simp
  then show ?thesis using run unfolding I_def sc_def by auto
qed

lemma smooth_side_loop:
  assumes "majorRadius t = Some R" "minorRadius t = Some r" "0 \<le> sectorCount t" "0 \<le> sideCount t"
  shows "\<exists>ns vs ts. forLe 0 (sideCount t) (smoothSideBody li ss sds) t
           = Inr (t\<lparr>normals := normals t @ ns, vertices := vertices t @ vs,
                    texCoords := texCoords t @ ts\<rparr>)
         \<and> length ns = 3 * (nat (sideCount t + 1) * nat (sectorCount t + 1))
         \<and> length vs = 3 * (nat (sideCount t + 1) * nat (sectorCount t + 1))
         \<and> length ts = 2 * (nat (sideCount t + 1) * nat (sectorCount t + 1))
         \<and> (\<forall>i j. 0 \<le> i \<and> i \<le> sideCount t \<and> 0 \<le> j \<and> j \<le> sectorCount t \<longrightarrow>
               triple ns (nat (i * (sectorCount t + 1) + j)) =
                 (r * cosf (PI - float_of_int i * sds) * cosf (float_of_int j * ss) * li,
                  r * cosf (PI - float_of_int i * sds) * sinf (float_of_int j * ss) * li,
                  r * sinf (PI - float_of_int i * sds) * li)
             \<and> triple vs (nat (i * (sectorCount t + 1) + j)) =
                 (r * cosf (PI - float_of_int i * sds) * cosf (float_of_int j * ss)
                    + R * cosf (float_of_int j * ss),
                  r * cosf (PI - float_of_int i * sds) * sinf (float_of_int j * ss)
                    + R * sinf (float_of_int j * ss),
                  r * sinf (PI - float_of_int i * sds)))"
proof -
  define sc where "sc = sectorCount t"
  define sd where "sd = sideCount t"
  define w where "w = nat (sc + 1)"
  define N where "N = (\<lambda>i j.
                 (r * cosf (PI - float_of_int i * sds) * cosf (float_of_int j * ss) * li,
                  r * cosf (PI - float_of_int i * sds) * sinf (float_of_int j * ss) * li,
                  r * sinf (PI - float_of_int i * sds) * li))"
  define P where "P = (\<lambda>i j.
                 (r * cosf (PI - float_of_int i * sds) * cosf (float_of_int j * ss)
                    + R * cosf (float_of_int j * ss),
                  r * cosf (PI - float_of_int i * sds) * sinf (float_of_int j * ss)
                    + R * sinf (float_of_int j * ss),
                  r * sinf (PI - float_of_int i * sds)))"
  define I where "I = (\<lambda>k s. \<exists>ns vs ts.
       s = t\<lparr>normals := normals t @ ns, vertices := vertices t @ vs,
             texCoords := texCoords t @ ts\<rparr>
     \<and> length ns = 3 * (nat k * w) \<and> length vs = 3 * (nat k * w) \<and> length ts = 2 * (nat k * w)
     \<and> (\<forall>i j. 0 \<le> i \<and> i < k \<and> 0 \<le> j \<and> j \<le> sc \<longrightarrow>
           triple ns (nat (i * (sc + 1) + j)) = N i j
         \<and> triple vs (nat (i * (sc + 1) + j)) = P i j))"
  have sc0: "0 \<le> sc" using assms(3) by (simp add: sc_def)
  have init: "I 0 t"
    unfolding I_def by (intro exI[of _ "[]"]) auto
  have step: "\<exists>s'. smoothSideBody li ss sds k s = Inr s' \<and> I (k + 1) s'"
    if "0 \<le> k" "k \<le> sd" "I k s" for k s
  proof -
    from that(3) obtain ns vs ts where
      s: "s = t\<lparr>normals := normals t @ ns, vertices := vertices t @ vs,
                texCoords := texCoords t @ ts\<rparr>"
      and l: "length ns = 3 * (nat k * w)" "length vs = 3 * (nat k * w)"
             "length ts = 2 * (nat k * w)"
      and e: "\<forall>i j. 0 \<le> i \<and> i < k \<and> 0 \<le> j \<and> j \<le> sc \<longrightarrow>
           triple ns (nat (i * (sc + 1) + j)) = N i j
         \<and> triple vs (nat (i * (sc + 1) + j)) = P i j"
      unfolding I_def by blast
    define xy where "xy = r * cosf (PI - float_of_int k * sds)"
    define z where "z = r * sinf (PI - float_of_int k * sds)"
    have sR: "majorRadius s = Some R" and sr: "minorRadius s = Some r"
      and ssc: "sectorCount s = sc" "0 \<le> sectorCount s"
      using assms by (simp_all add: s sc_def)
    from smooth_sector_loop[OF sR ssc(2), of li ss xy z k] obtain nr vr tr where
      row: "forLe 0 (sectorCount s) (smoothSectorBody li ss xy z k) s
           = Inr (s\<lparr>normals := normals s @ nr, vertices := vertices s @ vr,
                    texCoords := texCoords s @ tr\<rparr>)"
      and rl: "length nr = 3 * w" "length vr = 3 * w" "length tr = 2 * w"
      and re: "\<forall>j. 0 \<le> j \<and> j \<le> sc \<longrightarrow>
               triple nr (nat j) = (xy * cosf (float_of_int j * ss) * li,
                                   xy * sinf (float_of_int j * ss) * li, z * li)
             \<and> triple vr (nat j) = (xy * cosf (float_of_int j * ss) + R * cosf (float_of_int j * ss),
                                   xy * sinf (float_of_int j * ss) + R * sinf (float_of_int j * ss), z)"
      unfolding ssc(1) w_def by blast
    have body: "smoothSideBody li ss sds k s
       = Inr (t\<lparr>normals := normals t @ (ns @ nr), vertices := vertices t @ (vs @ vr),
                texCoords := texCoords t @ (ts @ tr)\<rparr>)"
      using row sr by (simp add: smoothSideBody_def Let_def xy_def z_def s)
    have nk: "nat (k + 1) = nat k + 1" using that(1) by simp
    have el: "triple (ns @ nr) (nat (i * (sc + 1) + j)) = N i j
            \<and> triple (vs @ vr) (nat (i * (sc + 1) + j)) = P i j"
      if ij: "0 \<le> i" "i < k + 1" "0 \<le> j" "j \<le> sc" for i j
    proof (cases "i < k")
      case True
      have "nat (i * (sc + 1) + j) = nat i * w + nat j"
        using ij sc0 by (simp add: grid_index w_def)
      moreover have "nat i * w + nat j < nat k * w"
        unfolding w_def using ij True by (intro grid_bound) simp_all
      ultimately have "3 * nat (i * (sc + 1) + j) + 2 < length ns"
        "3 * nat (i * (sc + 1) + j) + 2 < length vs" using l by simp_all
      then show ?thesis using e ij True by (simp add: triple_append_old)
    next
      case False
      with ij have ik: "i = k" by simp
      have "nat (i * (sc + 1) + j) = nat k * w + nat j"
        using ij sc0 ik by (simp add: grid_index w_def)
      then show ?thesis
        using triple_append_shift[of ns "nat k * w" nr "nat j"]
          triple_append_shift[of vs "nat k * w" vr "nat j"] l re ij ik
        by (simp add: N_def P_def xy_def z_def)
    qed
    have "I (k + 1) (t\<lparr>normals := normals t @ (ns @ nr), vertices := vertices t @ (vs @ vr),
                texCoords := texCoords t @ (ts @ tr)\<rparr>)"
      unfolding I_def using l rl el nk
      by (intro exI[of _ "ns @ nr"] exI[of _ "vs @ vr"] exI[of _ "ts @ tr"])
         (simp add: algebra_simps)
    with body show ?thesis by blast
  qed
  from forLe_rule[where I = I and i = 0 and n = sd and s = t
      and body = "smoothSideBody li ss sds", OF init step]
  obtain s' where run: "forLe 0 sd (smoothSideBody li ss sds) t = Inr s'"
    and fin: "I (max 0 (sd + 1)) s'"
    by auto
  have "max 0 (sd + 1) = sd + 1" using assms(4) by (simp add: sd_def)
  with fin have "I (sd + 1) s'" by simp
  then show ?thesis using run unfolding I_def sc_def sd_def w_def N_def P_def by auto
qed

lemma forLt_rule:
  "I i s \<Longrightarrow> (\<And>k s. i \<le> k \<Longrightarrow> k < n \<Longrightarrow> I k s \<Longrightarrow> \<exists>s'. body k s = Inr s' \<and> I (k + 1) s')
   \<Longrightarrow> \<exists>s'. forLt i n body s = Inr s' \<and> I (max i n) s'"
proof (induction i n body s rule: forLt.induct)
  case (1 i n body s)
  show ?case
  proof (cases "i < n")
    case True
    from 1(3)[of i s] True 1(2) obtain s1 where b: "body i s = Inr s1" and I1: "I (i + 1) s1"
      by auto
    have step: "\<And>k s. i + 1 \<le> k \<Longrightarrow> k < n \<Longrightarrow> I k s \<Longrightarrow> \<exists>s'. body k s = Inr s' \<and> I (k + 1) s'"
      using 1(3) by simp
    from 1(1)[OF True b I1 step] obtain s' where
      "forLt (i + 1) n body s1 = Inr s'" "I (max (i + 1) n) s'" by blast
    with True b show ?thesis
      by (subst forLt.simps) (simp add: max_def)
  next
    case False
    with 1(2) show ?thesis
      by (subst forLt.simps) (simp add: max_def)
  qed
qed

lemma smooth_index_sector_loop:
  "\<exists>is ls k1' k2'. forLt 0 (sectorCount t) smoothIndexBody (k1, k2, t)
           = Inr (k1', k2', t\<lparr>indices := indices t @ is, lineIndices := lineIndices t @ ls\<rparr>)
         \<and> length is = 6 * nat (sectorCount t) \<and> length ls = 4 * nat (sectorCount t)
         \<and> ((\<forall>x \<in> set is. x \<le> max k1 k2 + nat (sectorCount t)) \<and> (\<forall>x \<in> set ls. x \<le> max k1 k2 + nat (sectorCount t)))"
proof -
  define sc where "sc = sectorCount t"
  define I where "I = (\<lambda>j st. case st of (k1', k2', s) \<Rightarrow>
       k1' = k1 + nat j \<and> k2' = k2 + nat j \<and> (\<exists>is ls.
       s = t\<lparr>indices := indices t @ is, lineIndices := lineIndices t @ ls\<rparr>
     \<and> length is = 6 * nat j \<and> length ls = 4 * nat j
     \<and> ((\<forall>x \<in> set is. x \<le> max k1 k2 + nat j) \<and> (\<forall>x \<in> set ls. x \<le> max k1 k2 + nat j))))"
  have init: "I 0 (k1, k2, t)"
    unfolding I_def prod.case by (intro conjI exI[of _ "[]"]) auto
  have step: "\<exists>s'. smoothIndexBody j st = Inr s' \<and> I (j + 1) s'"
    if "0 \<le> j" "j < sc" "I j st" for j st
  proof -
    obtain a b s where st: "st = (a, b, s)" by (cases st) auto
    from that(3) obtain xs ls where ab: "a = k1 + nat j" "b = k2 + nat j"
      and s: "s = t\<lparr>indices := indices t @ xs, lineIndices := lineIndices t @ ls\<rparr>"
      and l: "length xs = 6 * nat j" "length ls = 4 * nat j"
      and bd: "(\<forall>x \<in> set xs. x \<le> max k1 k2 + nat j) \<and> (\<forall>x \<in> set ls. x \<le> max k1 k2 + nat j)"
      unfolding I_def st by auto
    define xb where "xb = [a, b, a + 1, a + 1, b, b + 1]"
    define lb where "lb = [a, b, a, a + 1]"
    have body: "smoothIndexBody j st
       = Inr (a + 1, b + 1, t\<lparr>indices := indices t @ (xs @ xb),
                               lineIndices := lineIndices t @ (ls @ lb)\<rparr>)"
      by (simp add: smoothIndexBody_def st s Let_def addIndices_def addLineIndex_def xb_def lb_def)
    have nk: "nat (j + 1) = nat j + 1" using that(1) by simp
    have "(\<forall>x \<in> set (xs @ xb). x \<le> max k1 k2 + nat (j + 1)) \<and> (\<forall>x \<in> set (ls @ lb). x \<le> max k1 k2 + nat (j + 1))"
      using bd ab nk by (auto simp: xb_def lb_def intro: le_SucI)
    then have "I (j + 1) (a + 1, b + 1, t\<lparr>indices := indices t @ (xs @ xb),
                               lineIndices := lineIndices t @ (ls @ lb)\<rparr>)"
      unfolding I_def prod.case using ab l nk
      by (intro conjI exI[of _ "xs @ xb"] exI[of _ "ls @ lb"]) (simp_all add: xb_def lb_def)
    with body show ?thesis by blast
  qed
  from forLt_rule[where I = I and i = 0 and n = sc and s = "(k1, k2, t)"
      and body = smoothIndexBody, OF init step]
  obtain s' where run: "forLt 0 sc smoothIndexBody (k1, k2, t) = Inr s'"
    and fin: "I (max 0 sc) s'"
    by auto
  obtain a b s where s': "s' = (a, b, s)" by (cases s') auto
  have "nat (max 0 sc) = nat sc" by simp
  with fin show ?thesis using run unfolding I_def sc_def s' by auto
qed

lemma smooth_index_bound:
  assumes "i + 1 \<le> (sd::nat)"
  shows "i * (sc + 1) + sc + 1 + sc < (sd + 1) * (sc + 1)"
proof -
  have "i * (sc + 1) + sc + 1 + sc < (i + 2) * (sc + 1)" by simp
  also have "\<dots> \<le> (sd + 1) * (sc + 1)" using assms by (intro mult_le_mono1) simp
  finally show ?thesis .
qed

lemma smooth_index_side_loop:
  assumes "0 \<le> sectorCount t"
  shows "\<exists>is ls. forLt 0 (sideCount t) smoothIndexSideBody t
           = Inr (t\<lparr>indices := indices t @ is, lineIndices := lineIndices t @ ls\<rparr>)
         \<and> length is = 6 * (nat (sideCount t) * nat (sectorCount t))
         \<and> length ls = 4 * (nat (sideCount t) * nat (sectorCount t))
         \<and> (\<forall>x \<in> set is. x < (nat (sideCount t) + 1) * (nat (sectorCount t) + 1))
         \<and> (\<forall>x \<in> set ls. x < (nat (sideCount t) + 1) * (nat (sectorCount t) + 1))"
proof -
  define sc where "sc = sectorCount t"
  define sd where "sd = sideCount t"
  define V where "V = (nat sd + 1) * (nat sc + 1)"
  define I where "I = (\<lambda>i s. \<exists>is ls.
       s = t\<lparr>indices := indices t @ is, lineIndices := lineIndices t @ ls\<rparr>
     \<and> length is = 6 * (nat i * nat sc) \<and> length ls = 4 * (nat i * nat sc)
     \<and> ((\<forall>x \<in> set is. x < V) \<and> (\<forall>x \<in> set ls. x < V)))"
  have sc0: "0 \<le> sc" using assms by (simp add: sc_def)
  have init: "I 0 t"
    unfolding I_def by (intro exI[of _ "[]"]) auto
  have step: "\<exists>s'. smoothIndexSideBody i s = Inr s' \<and> I (i + 1) s'"
    if "0 \<le> i" "i < sd" "I i s" for i s
  proof -
    from that(3) obtain xs ls where
      s: "s = t\<lparr>indices := indices t @ xs, lineIndices := lineIndices t @ ls\<rparr>"
      and l: "length xs = 6 * (nat i * nat sc)" "length ls = 4 * (nat i * nat sc)"
      and bd: "(\<forall>x \<in> set xs. x < V) \<and> (\<forall>x \<in> set ls. x < V)"
      unfolding I_def by blast
    define k1 where "k1 = nat (i * (sc + 1))"
    define k2 where "k2 = k1 + nat sc + 1"
    have ssc: "sectorCount s = sc" by (simp add: s sc_def)
    from smooth_index_sector_loop[of s k1 k2] obtain xr lr a b where
      row: "forLt 0 sc smoothIndexBody (k1, k2, s)
           = Inr (a, b, s\<lparr>indices := indices s @ xr, lineIndices := lineIndices s @ lr\<rparr>)"
      and rl: "length xr = 6 * nat sc" "length lr = 4 * nat sc"
      and rb: "(\<forall>x \<in> set xr. x \<le> max k1 k2 + nat sc) \<and> (\<forall>x \<in> set lr. x \<le> max k1 k2 + nat sc)"
      unfolding ssc by blast
    have body: "smoothIndexSideBody i s
       = Inr (t\<lparr>indices := indices t @ (xs @ xr), lineIndices := lineIndices t @ (ls @ lr)\<rparr>)"
      using row by (simp add: smoothIndexSideBody_def Let_def k1_def k2_def s sc_def[symmetric])
    have nk: "nat (i + 1) = nat i + 1" using that(1) by simp
    have k1n: "k1 = nat i * (nat sc + 1)"
      using that(1) sc0 by (simp add: k1_def nat_mult_distrib nat_add_distrib)
    have "nat i + 1 \<le> nat sd" using that by simp
    from smooth_index_bound[OF this, of "nat sc"]
    have "max k1 k2 + nat sc < V" by (simp add: k2_def k1n V_def max_def)
    with rb have "(\<forall>x \<in> set xr. x < V) \<and> (\<forall>x \<in> set lr. x < V)"
      by (auto intro: le_less_trans)
    with bd have "(\<forall>x \<in> set (xs @ xr). x < V) \<and> (\<forall>x \<in> set (ls @ lr). x < V)" by auto
    then have "I (i + 1) (t\<lparr>indices := indices t @ (xs @ xr),
                             lineIndices := lineIndices t @ (ls @ lr)\<rparr>)"
      unfolding I_def using l rl nk
      by (intro exI[of _ "xs @ xr"] exI[of _ "ls @ lr"]) (simp add: algebra_simps)
    with body show ?thesis by blast
  qed
  from forLt_rule[where I = I and i = 0 and n = sd and s = t
      and body = smoothIndexSideBody, OF init step]
  obtain s' where run: "forLt 0 sd smoothIndexSideBody t = Inr s'"
    and fin: "I (max 0 sd) s'"
    by auto
  have "nat (max 0 sd) = nat sd" by simp
  with fin show ?thesis using run unfolding I_def sc_def sd_def V_def by auto
qed

lemma smooth_before_axis:
  assumes "majorRadius t = Some R" "minorRadius t = Some r"
    "0 \<le> sectorCount t" "0 \<le> sideCount t"
  shows "\<exists>t3. buildVerticesSmooth t
            = (if upAxis t \<noteq> 3 then changeUpAxis 3 (upAxis t) t3 else Inr t3)
          \<and> sameParameters t t3 \<and> synced t3
          \<and> getVertexCount t3 = nat (sideCount t + 1) * nat (sectorCount t + 1)
          \<and> length (indices t3) = 6 * (nat (sideCount t) * nat (sectorCount t))
          \<and> length (lineIndices t3) = 4 * (nat (sideCount t) * nat (sectorCount t))
          \<and> (\<forall>x \<in> set (indices t3). x < getVertexCount t3)
          \<and> (\<forall>x \<in> set (lineIndices t3). x < getVertexCount t3)
          \<and> (\<forall>i j. 0 \<le> i \<and> i \<le> sideCount t \<and> 0 \<le> j \<and> j \<le> sectorCount t \<longrightarrow>
               triple (normals t3) (nat (i * (sectorCount t + 1) + j)) =
                 (r * cosf (PI - float_of_int i * (Fin 2 * PI / float_of_int (sideCount t)))
                    * cosf (float_of_int j * (Fin 2 * PI / float_of_int (sectorCount t))) * (1 / r),
                  r * cosf (PI - float_of_int i * (Fin 2 * PI / float_of_int (sideCount t)))
                    * sinf (float_of_int j * (Fin 2 * PI / float_of_int (sectorCount t))) * (1 / r),
                  r * sinf (PI - float_of_int i * (Fin 2 * PI / float_of_int (sideCount t))) * (1 / r))
             \<and> triple (vertices t3) (nat (i * (sectorCount t + 1) + j)) =
                 (r * cosf (PI - float_of_int i * (Fin 2 * PI / float_of_int (sideCount t)))
                    * cosf (float_of_int j * (Fin 2 * PI / float_of_int (sectorCount t)))
                    + R * cosf (float_of_int j * (Fin 2 * PI / float_of_int (sectorCount t))),
                  r * cosf (PI - float_of_int i * (Fin 2 * PI / float_of_int (sideCount t)))
                    * sinf (float_of_int j * (Fin 2 * PI / float_of_int (sectorCount t)))
                    + R * sinf (float_of_int j * (Fin 2 * PI / float_of_int (sectorCount t))),
                  r * sinf (PI - float_of_int i * (Fin 2 * PI / float_of_int (sideCount t)))))
          \<and> list_all representable (normals t3)"
proof -
  define sc where "sc = sectorCount t"
  define sd where "sd = sideCount t"
  define V where "V = (nat sd + 1) * (nat sc + 1)"
  define t0 where "t0 = clearArrays t"
  have Veq: "nat (sd + 1) * nat (sc + 1) = V"
    using assms by (simp add: V_def sc_def sd_def nat_add_distrib)
  define li where "li = 1 / r"
  define ss where "ss = Fin 2 * PI / float_of_int sc"
  define sds where "sds = Fin 2 * PI / float_of_int sd"
  have p0: "majorRadius t0 = Some R" "minorRadius t0 = Some r" "sectorCount t0 = sc"
    "sideCount t0 = sd" "0 \<le> sectorCount t0" "0 \<le> sideCount t0"
    and a0: "vertices t0 = []" "normals t0 = []" "texCoords t0 = []" "indices t0 = []"
      "lineIndices t0 = []"
    using assms by (simp_all add: t0_def clearArrays_def sc_def sd_def)
  from smooth_side_loop[OF p0(1,2,5,6), of li ss sds] obtain ns vs ts where
    run1: "forLe 0 sd (smoothSideBody li ss sds) t0
           = Inr (t0\<lparr>normals := ns, vertices := vs, texCoords := ts\<rparr>)"
    and l1: "length ns = 3 * V" "length vs = 3 * V" "length ts = 2 * V"
    and e1: "\<forall>i j. 0 \<le> i \<and> i \<le> sd \<and> 0 \<le> j \<and> j \<le> sc \<longrightarrow>
               triple ns (nat (i * (sc + 1) + j)) =
                 (r * cosf (PI - float_of_int i * sds) * cosf (float_of_int j * ss) * li,
                  r * cosf (PI - float_of_int i * sds) * sinf (float_of_int j * ss) * li,
                  r * sinf (PI - float_of_int i * sds) * li)
             \<and> triple vs (nat (i * (sc + 1) + j)) =
                 (r * cosf (PI - float_of_int i * sds) * cosf (float_of_int j * ss)
                    + R * cosf (float_of_int j * ss),
                  r * cosf (PI - float_of_int i * sds) * sinf (float_of_int j * ss)
                    + R * sinf (float_of_int j * ss),
                  r * sinf (PI - float_of_int i * sds))"
    unfolding p0 a0 Veq by auto
  define t1 where "t1 = t0\<lparr>normals := ns, vertices := vs, texCoords := ts\<rparr>"
  have p1: "sectorCount t1 = sc" "sideCount t1 = sd" "0 \<le> sectorCount t1"
    "indices t1 = []" "lineIndices t1 = []"
    using p0 a0 by (simp_all add: t1_def)
  from smooth_index_side_loop[OF p1(3)] obtain xs ls where
    run2: "forLt 0 sd smoothIndexSideBody t1 = Inr (t1\<lparr>indices := xs, lineIndices := ls\<rparr>)"
    and l2: "length xs = 6 * (nat sd * nat sc)" "length ls = 4 * (nat sd * nat sc)"
    and b2: "\<forall>x \<in> set xs. x < V" "\<forall>x \<in> set ls. x < V"
    unfolding p1 V_def by auto
  define t2 where "t2 = t1\<lparr>indices := xs, lineIndices := ls\<rparr>"
  have "shaped t2 \<and> getVertexCount t2 = V"
    by (rule shapedI) (simp_all add: t2_def t1_def l1)
  then have sh2: "shaped t2" and v2: "getVertexCount t2 = V" by simp_all
  from buildInterleavedVertices_shaped[OF sh2] obtain iv where
    run3: "buildInterleavedVertices t2 = Inr (t2\<lparr>interleavedVertices := iv\<rparr>)"
    and sy3: "synced (t2\<lparr>interleavedVertices := iv\<rparr>)"
    by blast
  define t3 where "t3 = t2\<lparr>interleavedVertices := iv\<rparr>"
  have v3: "getVertexCount t3 = V" using v2 by (simp add: t3_def getVertexCount_def)
  have f3: "upAxis t3 = upAxis t" "normals t3 = ns" "indices t3 = xs" "lineIndices t3 = ls"
      "vertices t3 = vs"
    and sp: "sameParameters t t3"
    by (simp_all add: t3_def t2_def t1_def t0_def clearArrays_def sameParameters_def)
  have c1: "buildVerticesSmooth t
            = (if upAxis t \<noteq> 3 then changeUpAxis 3 (upAxis t) t3 else Inr t3)"
    using run1 run2 run3 p0 p1 f3(1)
    by (simp add: buildVerticesSmooth_def Let_def t0_def[symmetric] li_def[symmetric]
        ss_def[symmetric] sds_def[symmetric] t1_def[symmetric] t2_def[symmetric]
        t3_def[symmetric])
  have c3: "synced t3" using sy3 by (simp add: t3_def)
  have c4: "getVertexCount t3 = nat (sideCount t + 1) * nat (sectorCount t + 1)"
    using v3 Veq by (simp add: sc_def sd_def)
  have c5: "length (indices t3) = 6 * (nat (sideCount t) * nat (sectorCount t))"
    using l2(1) by (simp add: f3 sc_def sd_def)
  have c6: "length (lineIndices t3) = 4 * (nat (sideCount t) * nat (sectorCount t))"
    using l2(2) by (simp add: f3 sc_def sd_def)
  have c7: "\<forall>x \<in> set (indices t3). x < getVertexCount t3"
    using b2(1) by (simp add: f3 v3)
  have c8: "\<forall>x \<in> set (lineIndices t3). x < getVertexCount t3"
    using b2(2) by (simp add: f3 v3)
  have c9: "\<forall>i j. 0 \<le> i \<and> i \<le> sideCount t \<and> 0 \<le> j \<and> j \<le> sectorCount t \<longrightarrow>
               triple (normals t3) (nat (i * (sectorCount t + 1) + j)) =
                 (r * cosf (PI - float_of_int i * (Fin 2 * PI / float_of_int (sideCount t)))
                    * cosf (float_of_int j * (Fin 2 * PI / float_of_int (sectorCount t))) * (1 / r),
                  r * cosf (PI - float_of_int i * (Fin 2 * PI / float_of_int (sideCount t)))
                    * sinf (float_of_int j * (Fin 2 * PI / float_of_int (sectorCount t))) * (1 / r),
                  r * sinf (PI - float_of_int i * (Fin 2 * PI / float_of_int (sideCount t))) * (1 / r))
             \<and> triple (vertices t3) (nat (i * (sectorCount t + 1) + j)) =
                 (r * cosf (PI - float_of_int i * (Fin 2 * PI / float_of_int (sideCount t)))
                    * cosf (float_of_int j * (Fin 2 * PI / float_of_int (sectorCount t)))
                    + R * cosf (float_of_int j * (Fin 2 * PI / float_of_int (sectorCount t))),
                  r * cosf (PI - float_of_int i * (Fin 2 * PI / float_of_int (sideCount t)))
                    * sinf (float_of_int j * (Fin 2 * PI / float_of_int (sectorCount t)))
                    + R * sinf (float_of_int j * (Fin 2 * PI / float_of_int (sectorCount t))),
                  r * sinf (PI - float_of_int i * (Fin 2 * PI / float_of_int (sideCount t))))"
    using e1 unfolding f3 sc_def sd_def li_def ss_def sds_def .
  have c10: "list_all representable (normals t3)"
    unfolding f3
  proof (rule list_all_triples[OF l1(1)])
    fix q assume "q < V"
    then have "q < nat (sd + 1) * nat (sc + 1)" by (simp add: Veq)
    from grid_vertex_cover[OF this] p0(3,5) obtain i j where
      "0 \<le> i" "i \<le> sd" "0 \<le> j" "j \<le> sc" "q = nat (i * (sc + 1) + j)"
      by auto
    with e1 show "representable (fst (triple ns q)) \<and> representable (fst (snd (triple ns q)))
                          \<and> representable (snd (snd (triple ns q)))"
      by simp
  qed
  show ?thesis
    by (intro exI[of _ t3] conjI c1 sp c3 c4 c5 c6 c7 c8 c9 c10)
qed

lemma flat_tmp_sector_loop:
  assumes "0 \<le> sectorCount t"
  shows "\<exists>vs. forLe 0 (sectorCount t) (flatTmpSectorBody t ss xy z i) tmp = Inr (tmp @ vs)
           \<and> length vs = nat (sectorCount t + 1)"
proof -
  define I where "I = (\<lambda>j s. \<exists>vs. s = tmp @ vs \<and> length vs = nat j)"
  have init: "I 0 tmp" by (simp add: I_def)
  have step: "\<exists>s'. flatTmpSectorBody t ss xy z i j s = Inr s' \<and> I (j + 1) s'"
    if "0 \<le> j" "j \<le> sectorCount t" "I j s" for j s
    using that by (auto simp: I_def flatTmpSectorBody_def Let_def nat_add_distrib)
  from forLe_rule[where I = I and i = 0 and n = "sectorCount t" and s = tmp
      and body = "flatTmpSectorBody t ss xy z i", OF init step]
  obtain s' where run: "forLe 0 (sectorCount t) (flatTmpSectorBody t ss xy z i) tmp = Inr s'"
    and fin: "I (max 0 (sectorCount t + 1)) s'"
    by auto
  have "max 0 (sectorCount t + 1) = sectorCount t + 1" using assms by simp
  with fin run show ?thesis by (auto simp: I_def)
qed

lemma flat_tmp_side_loop:
  assumes "majorRadius t = Some R" "minorRadius t = Some r" "0 \<le> sectorCount t" "0 \<le> sideCount t"
  shows "\<exists>vs. forLe 0 (sideCount t) (flatTmpSideBody t ss sds) [] = Inr vs
           \<and> length vs = nat (sideCount t + 1) * nat (sectorCount t + 1)"
proof -
  define w where "w = nat (sectorCount t + 1)"
  define I where "I = (\<lambda>i (s::Vertex list). length s = nat i * w)"
  have init: "I 0 []" by (simp add: I_def)
  have step: "\<exists>s'. flatTmpSideBody t ss sds i s = Inr s' \<and> I (i + 1) s'"
    if "0 \<le> i" "i \<le> sideCount t" "I i s" for i s
  proof -
    define xy where "xy = R + r * cosf (PI - float_of_int i * sds)"
    define z where "z = r * sinf (PI - float_of_int i * sds)"
    from flat_tmp_sector_loop[OF assms(3), of ss xy z i s] obtain vs where
      "forLe 0 (sectorCount t) (flatTmpSectorBody t ss xy z i) s = Inr (s @ vs)"
      "length vs = w" unfolding w_def by blast
    then show ?thesis using that assms(1,2)
      by (simp add: flatTmpSideBody_def Let_def xy_def z_def I_def nat_add_distrib algebra_simps)
  qed
  from forLe_rule[where I = I and i = 0 and n = "sideCount t" and s = "[]"
      and body = "flatTmpSideBody t ss sds", OF init step]
  obtain s' where run: "forLe 0 (sideCount t) (flatTmpSideBody t ss sds) [] = Inr s'"
    and fin: "I (max 0 (sideCount t + 1)) s'"
    by auto
  have "max 0 (sideCount t + 1) = sideCount t + 1" using assms by simp
  with fin run show ?thesis by (auto simp: I_def w_def)
qed

lemma addFaceNormals_eq:
  "addFaceNormals n t = Inr (t\<lparr>normals := normals t @
     [n ! 0, n ! 1, n ! 2, n ! 0, n ! 1, n ! 2, n ! 0, n ! 1, n ! 2, n ! 0, n ! 1, n ! 2]\<rparr>)"
  by (simp add: addFaceNormals_def forLt.simps[of 0 4] forLt.simps[of 1 4] forLt.simps[of 2 4]
      forLt.simps[of 3 4] forLt.simps[of 4 4] addNormal_def)

lemma flatQuads_single:
  "flatQuads [x1, y1, z1, x2, y2, z2, x3, y3, z3, x4, y4, z4]
     (let n = computeFaceNormal x1 y1 z1 x2 y2 z2 x3 y3 z3
      in [n ! 0, n ! 1, n ! 2, n ! 0, n ! 1, n ! 2, n ! 0, n ! 1, n ! 2, n ! 0, n ! 1, n ! 2]) 1"
proof -
  have c4: "c = 0 \<or> c = 1 \<or> c = 2 \<or> c = 3" if "c < 4" for c :: nat
    using that by arith
  show ?thesis
    unfolding flatQuads_def Let_def
    by (auto simp: triple_def faceNormal3_def numeral_2_eq_2 dest!: c4)
qed

lemma flatQuads_append:
  assumes "flatQuads vs1 ns1 Q1" "length vs1 = 12 * Q1" "length ns1 = 12 * Q1"
    "flatQuads vs2 ns2 Q2"
  shows "flatQuads (vs1 @ vs2) (ns1 @ ns2) (Q1 + Q2)"
  unfolding flatQuads_def
proof (intro allI impI)
  fix q c :: nat
  assume q: "q < Q1 + Q2" and c: "c < 4"
  show "triple (ns1 @ ns2) (4 * q + c) =
        faceNormal3 (triple (vs1 @ vs2) (4 * q)) (triple (vs1 @ vs2) (4 * q + 1))
          (triple (vs1 @ vs2) (4 * q + 2))"
  proof (cases "q < Q1")
    case True
    then have "3 * (4 * q + c) + 2 < length ns1" "3 * (4 * q) + 2 < length vs1"
      "3 * (4 * q + 1) + 2 < length vs1" "3 * (4 * q + 2) + 2 < length vs1"
      using assms(2,3) c by simp_all
    then show ?thesis
      using assms(1) True c by (simp add: triple_append_old flatQuads_def)
  next
    case False
    define q' where "q' = q - Q1"
    have qq: "q = Q1 + q'" "q' < Q2" using False q by (simp_all add: q'_def)
    have l: "length ns1 = 3 * (4 * Q1)" "length vs1 = 3 * (4 * Q1)" using assms(2,3) by simp_all
    have e: "4 * q + c = 4 * Q1 + (4 * q' + c)" "4 * q = 4 * Q1 + 4 * q'"
      "4 * q + 1 = 4 * Q1 + (4 * q' + 1)" "4 * q + 2 = 4 * Q1 + (4 * q' + 2)"
      using qq by simp_all
    have t1: "triple (ns1 @ ns2) (4 * q + c) = triple ns2 (4 * q' + c)"
      unfolding e(1) by (rule triple_append_shift[OF l(1)])
    have t2: "triple (vs1 @ vs2) (4 * q) = triple vs2 (4 * q')"
      unfolding e(2) by (rule triple_append_shift[OF l(2)])
    have t3: "triple (vs1 @ vs2) (4 * q + 1) = triple vs2 (4 * q' + 1)"
      unfolding e(3) by (rule triple_append_shift[OF l(2)])
    have t4: "triple (vs1 @ vs2) (4 * q + 2) = triple vs2 (4 * q' + 2)"
      unfolding e(4) by (rule triple_append_shift[OF l(2)])
    from assms(4) qq(2) c have "triple ns2 (4 * q' + c) =
        faceNormal3 (triple vs2 (4 * q')) (triple vs2 (4 * q' + 1)) (triple vs2 (4 * q' + 2))"
      unfolding flatQuads_def by blast
    then show ?thesis unfolding t1 t2 t3 t4 .
  qed
qed

lemma flat_quad_loop:
  assumes "0 \<le> vi1" "0 \<le> vi2" "vi1 + sectorCount t < int (length tmp)"
    "vi2 + sectorCount t < int (length tmp)" "0 \<le> index" "0 \<le> sectorCount t"
  shows "\<exists>vs ts ns xs ls a b. forLt 0 (sectorCount t) (flatQuadBody tmp) (vi1, vi2, index, t)
           = Inr (a, b, index + 4 * sectorCount t,
                  t\<lparr>vertices := vertices t @ vs, texCoords := texCoords t @ ts,
                    normals := normals t @ ns, indices := indices t @ xs,
                    lineIndices := lineIndices t @ ls\<rparr>)
         \<and> length vs = 12 * nat (sectorCount t) \<and> length ts = 8 * nat (sectorCount t)
         \<and> length ns = 12 * nat (sectorCount t) \<and> length xs = 6 * nat (sectorCount t)
         \<and> length ls = 4 * nat (sectorCount t)
         \<and> (\<forall>x \<in> set xs. x < nat index + 4 * nat (sectorCount t))
         \<and> (\<forall>x \<in> set ls. x < nat index + 4 * nat (sectorCount t))
         \<and> flatQuads vs ns (nat (sectorCount t))"
proof -
  define sc where "sc = sectorCount t"
  define I where "I = (\<lambda>j st. case st of (a, b, idx, s) \<Rightarrow>
       a = vi1 + j \<and> b = vi2 + j \<and> idx = index + 4 * j \<and> (\<exists>vs ts ns xs ls.
       s = t\<lparr>vertices := vertices t @ vs, texCoords := texCoords t @ ts,
             normals := normals t @ ns, indices := indices t @ xs,
             lineIndices := lineIndices t @ ls\<rparr>
     \<and> length vs = 12 * nat j \<and> length ts = 8 * nat j \<and> length ns = 12 * nat j
     \<and> length xs = 6 * nat j \<and> length ls = 4 * nat j
     \<and> (\<forall>x \<in> set xs. x < nat index + 4 * nat j)
     \<and> (\<forall>x \<in> set ls. x < nat index + 4 * nat j)
     \<and> flatQuads vs ns (nat j)))"
  have init: "I 0 (vi1, vi2, index, t)"
    unfolding I_def prod.case
    by (intro conjI exI[of _ "[]"]) (auto simp: flatQuads_def)
  have step: "\<exists>s'. flatQuadBody tmp j st = Inr s' \<and> I (j + 1) s'"
    if "0 \<le> j" "j < sc" "I j st" for j st
  proof -
    obtain a b idx s where st: "st = (a, b, idx, s)" by (cases st) auto
    from that(3) obtain vs ts ns xs ls where
      ab: "a = vi1 + j" "b = vi2 + j" "idx = index + 4 * j"
      and s: "s = t\<lparr>vertices := vertices t @ vs, texCoords := texCoords t @ ts,
             normals := normals t @ ns, indices := indices t @ xs,
             lineIndices := lineIndices t @ ls\<rparr>"
      and l: "length vs = 12 * nat j" "length ts = 8 * nat j" "length ns = 12 * nat j"
        "length xs = 6 * nat j" "length ls = 4 * nat j"
      and bd: "\<forall>x \<in> set xs. x < nat index + 4 * nat j"
              "\<forall>x \<in> set ls. x < nat index + 4 * nat j"
      and fq: "flatQuads vs ns (nat j)"
      unfolding I_def st prod.case by blast
    define v1 where "v1 = tmp ! nat a"
    define v2 where "v2 = tmp ! nat b"
    define v3 where "v3 = tmp ! nat (a + 1)"
    define v4 where "v4 = tmp ! nat (b + 1)"
    define n where "n = computeFaceNormal (vertex_x v1) (vertex_y v1) (vertex_z v1)
        (vertex_x v2) (vertex_y v2) (vertex_z v2) (vertex_x v3) (vertex_y v3) (vertex_z v3)"
    define vb where "vb = [vertex_x v1, vertex_y v1, vertex_z v1, vertex_x v2, vertex_y v2,
        vertex_z v2, vertex_x v3, vertex_y v3, vertex_z v3, vertex_x v4, vertex_y v4, vertex_z v4]"
    define tb where "tb = [vertex_s v1, vertex_t v1, vertex_s v2, vertex_t v2,
        vertex_s v3, vertex_t v3, vertex_s v4, vertex_t v4]"
    define nb where "nb = [n ! 0, n ! 1, n ! 2, n ! 0, n ! 1, n ! 2, n ! 0, n ! 1, n ! 2,
        n ! 0, n ! 1, n ! 2]"
    define xb where "xb = [nat idx, nat (idx + 1), nat (idx + 2),
        nat (idx + 2), nat (idx + 1), nat (idx + 3)]"
    define lb where "lb = [nat idx, nat (idx + 1), nat idx, nat (idx + 2)]"
    have guard: "0 \<le> a" "0 \<le> b" "a + 1 < int (length tmp)" "b + 1 < int (length tmp)"
      using assms(1-4) that(1,2) ab by (simp_all add: sc_def)
    have body: "flatQuadBody tmp j st
       = Inr (a + 1, b + 1, idx + 4,
              t\<lparr>vertices := vertices t @ (vs @ vb), texCoords := texCoords t @ (ts @ tb),
                normals := normals t @ (ns @ nb), indices := indices t @ (xs @ xb),
                lineIndices := lineIndices t @ (ls @ lb)\<rparr>)"
      using guard
      by (simp add: flatQuadBody_def st s Let_def addVertex_def addTexCoord_def
          addFaceNormals_eq addIndices_def addLineIndex_def
          v1_def v2_def v3_def v4_def n_def vb_def tb_def nb_def xb_def lb_def)
    have nk: "nat (j + 1) = nat j + 1" using that(1) by simp
    have fq1: "flatQuads vb nb 1"
      using flatQuads_single[of "vertex_x v1" "vertex_y v1" "vertex_z v1" "vertex_x v2"
          "vertex_y v2" "vertex_z v2" "vertex_x v3" "vertex_y v3" "vertex_z v3"
          "vertex_x v4" "vertex_y v4" "vertex_z v4"]
      by (simp add: vb_def nb_def n_def Let_def)
    have fq': "flatQuads (vs @ vb) (ns @ nb) (nat j + 1)"
      by (rule flatQuads_append[OF fq l(1) l(3) fq1])
    have idx: "nat idx = nat index + 4 * nat j" "nat (idx + 1) = nat index + 4 * nat j + 1"
      "nat (idx + 2) = nat index + 4 * nat j + 2" "nat (idx + 3) = nat index + 4 * nat j + 3"
      using ab(3) assms(5) that(1) by (simp_all add: nat_add_distrib nat_mult_distrib)
    have bx: "\<forall>x \<in> set (xs @ xb). x < nat index + 4 * nat (j + 1)"
      using bd(1) unfolding nk xb_def idx by auto
    have bl: "\<forall>x \<in> set (ls @ lb). x < nat index + 4 * nat (j + 1)"
      using bd(2) unfolding nk lb_def idx by auto
    have "I (j + 1) (a + 1, b + 1, idx + 4,
              t\<lparr>vertices := vertices t @ (vs @ vb), texCoords := texCoords t @ (ts @ tb),
                normals := normals t @ (ns @ nb), indices := indices t @ (xs @ xb),
                lineIndices := lineIndices t @ (ls @ lb)\<rparr>)"
    proof -
      have e: "a + 1 = vi1 + (j + 1)" "b + 1 = vi2 + (j + 1)" "idx + 4 = index + 4 * (j + 1)"
        using ab by simp_all
      have c: "length (vs @ vb) = 12 * nat (j + 1)" "length (ts @ tb) = 8 * nat (j + 1)"
        "length (ns @ nb) = 12 * nat (j + 1)" "length (xs @ xb) = 6 * nat (j + 1)"
        "length (ls @ lb) = 4 * nat (j + 1)"
        unfolding nk using l by (simp_all add: vb_def tb_def nb_def xb_def lb_def)
      have f: "flatQuads (vs @ vb) (ns @ nb) (nat (j + 1))" unfolding nk by (rule fq')
      show ?thesis
        unfolding I_def prod.case
        by (intro conjI e, rule exI[of _ "vs @ vb"], rule exI[of _ "ts @ tb"],
            rule exI[of _ "ns @ nb"], rule exI[of _ "xs @ xb"], rule exI[of _ "ls @ lb"],
            intro conjI refl c bx bl f)
    qed
    with body show ?thesis by blast
  qed
  from forLt_rule[where I = I and i = 0 and n = sc and s = "(vi1, vi2, index, t)"
      and body = "flatQuadBody tmp", OF init step]
  obtain s' where run: "forLt 0 sc (flatQuadBody tmp) (vi1, vi2, index, t) = Inr s'"
    and fin: "I (max 0 sc) s'"
    by auto
  obtain a b idx s where s': "s' = (a, b, idx, s)" by (cases s') auto
  have "max 0 sc = sc" using assms(6) by (simp add: sc_def)
  with fin have "I sc (a, b, idx, s)" by (simp add: s')
  then show ?thesis using run unfolding I_def sc_def s' prod.case by blast
qed

lemma flat_tmp_bound:
  assumes "0 \<le> i" "i < sd" "0 \<le> (sc::int)"
  shows "(i + 1) * (sc + 1) + sc < (sd + 1) * (sc + 1)"
proof -
  have "(i + 2) * (sc + 1) \<le> (sd + 1) * (sc + 1)"
    using assms by (intro mult_right_mono) auto
  then show ?thesis by (simp add: algebra_simps)
qed

lemma flat_side_loop:
  assumes "0 \<le> sectorCount t" "0 \<le> sideCount t"
    "length tmp = nat (sideCount t + 1) * nat (sectorCount t + 1)"
    "vertices t = []" "texCoords t = []" "normals t = []" "indices t = []" "lineIndices t = []"
  shows "\<exists>vs ts ns xs ls. forLt 0 (sideCount t) (flatSideBody tmp) (0, t)
           = Inr (4 * sideCount t * sectorCount t,
                  t\<lparr>vertices := vs, texCoords := ts, normals := ns, indices := xs,
                    lineIndices := ls\<rparr>)
         \<and> length vs = 12 * (nat (sideCount t) * nat (sectorCount t))
         \<and> length ts = 8 * (nat (sideCount t) * nat (sectorCount t))
         \<and> length ns = 12 * (nat (sideCount t) * nat (sectorCount t))
         \<and> length xs = 6 * (nat (sideCount t) * nat (sectorCount t))
         \<and> length ls = 4 * (nat (sideCount t) * nat (sectorCount t))
         \<and> (\<forall>x \<in> set xs. x < 4 * (nat (sideCount t) * nat (sectorCount t)))
         \<and> (\<forall>x \<in> set ls. x < 4 * (nat (sideCount t) * nat (sectorCount t)))
         \<and> flatQuads vs ns (nat (sideCount t) * nat (sectorCount t))"
proof -
  define sc where "sc = sectorCount t"
  define sd where "sd = sideCount t"
  define I where "I = (\<lambda>i st. case st of (idx, s) \<Rightarrow>
       idx = 4 * i * sc \<and> (\<exists>vs ts ns xs ls.
       s = t\<lparr>vertices := vs, texCoords := ts, normals := ns, indices := xs,
             lineIndices := ls\<rparr>
     \<and> length vs = 12 * (nat i * nat sc) \<and> length ts = 8 * (nat i * nat sc)
     \<and> length ns = 12 * (nat i * nat sc) \<and> length xs = 6 * (nat i * nat sc)
     \<and> length ls = 4 * (nat i * nat sc)
     \<and> (\<forall>x \<in> set xs. x < 4 * (nat i * nat sc))
     \<and> (\<forall>x \<in> set ls. x < 4 * (nat i * nat sc))
     \<and> flatQuads vs ns (nat i * nat sc)))"
  have sc0: "0 \<le> sc" and sd0: "0 \<le> sd" using assms by (simp_all add: sc_def sd_def)
  have ltmp: "int (length tmp) = (sd + 1) * (sc + 1)"
    using assms(3) sc0 sd0 by (simp add: sc_def sd_def nat_mult_distrib)
  have "t = t\<lparr>vertices := [], texCoords := [], normals := [], indices := [],
             lineIndices := []\<rparr>"
    using assms(4-8) by simp
  then have init: "I 0 (0, t)"
    unfolding I_def prod.case
    by (intro conjI exI[of _ "[]"]) (auto simp: flatQuads_def)
  have step: "\<exists>s'. flatSideBody tmp i st = Inr s' \<and> I (i + 1) s'"
    if "0 \<le> i" "i < sd" "I i st" for i st
  proof -
    obtain idx s where st: "st = (idx, s)" by (cases st) auto
    from that(3) obtain vs ts ns xs ls where
      ix: "idx = 4 * i * sc"
      and s: "s = t\<lparr>vertices := vs, texCoords := ts, normals := ns, indices := xs,
             lineIndices := ls\<rparr>"
      and l: "length vs = 12 * (nat i * nat sc)" "length ts = 8 * (nat i * nat sc)"
        "length ns = 12 * (nat i * nat sc)" "length xs = 6 * (nat i * nat sc)"
        "length ls = 4 * (nat i * nat sc)"
      and bd: "\<forall>x \<in> set xs. x < 4 * (nat i * nat sc)"
              "\<forall>x \<in> set ls. x < 4 * (nat i * nat sc)"
      and fq: "flatQuads vs ns (nat i * nat sc)"
      unfolding I_def st prod.case by blast
    define vi1 where "vi1 = i * (sc + 1)"
    define vi2 where "vi2 = (i + 1) * (sc + 1)"
    have ssc: "sectorCount s = sc" by (simp add: s sc_def)
    have g: "0 \<le> vi1" "0 \<le> vi2" "vi1 + sectorCount s < int (length tmp)"
      "vi2 + sectorCount s < int (length tmp)" "0 \<le> idx" "0 \<le> sectorCount s"
    proof -
      show "0 \<le> vi1" "0 \<le> vi2" using that(1) sc0 by (simp_all add: vi1_def vi2_def)
      have b2: "vi2 + sc < (sd + 1) * (sc + 1)"
        unfolding vi2_def by (rule flat_tmp_bound[OF that(1,2) sc0])
      then show "vi2 + sectorCount s < int (length tmp)" by (simp add: ssc ltmp)
      have "vi1 \<le> vi2" using sc0 by (simp add: vi1_def vi2_def algebra_simps)
      with b2 show "vi1 + sectorCount s < int (length tmp)" by (simp add: ssc ltmp)
      show "0 \<le> idx" using that(1) sc0 by (simp add: ix)
      show "0 \<le> sectorCount s" using sc0 by (simp add: ssc)
    qed
    from flat_quad_loop[OF g] obtain vr tr nr xr lr a b where
      row: "forLt 0 sc (flatQuadBody tmp) (vi1, vi2, idx, s)
           = Inr (a, b, idx + 4 * sc,
                  s\<lparr>vertices := vertices s @ vr, texCoords := texCoords s @ tr,
                    normals := normals s @ nr, indices := indices s @ xr,
                    lineIndices := lineIndices s @ lr\<rparr>)"
      and rl: "length vr = 12 * nat sc" "length tr = 8 * nat sc" "length nr = 12 * nat sc"
        "length xr = 6 * nat sc" "length lr = 4 * nat sc"
      and rb: "\<forall>x \<in> set xr. x < nat idx + 4 * nat sc"
              "\<forall>x \<in> set lr. x < nat idx + 4 * nat sc"
      and rq: "flatQuads vr nr (nat sc)"
      unfolding ssc by blast
    have body: "flatSideBody tmp i st
       = Inr (idx + 4 * sc,
              t\<lparr>vertices := vs @ vr, texCoords := ts @ tr, normals := ns @ nr,
                indices := xs @ xr, lineIndices := ls @ lr\<rparr>)"
      using row
      by (simp add: flatSideBody_def st Let_def vi1_def vi2_def s sc_def[symmetric])
    have nk: "nat (i + 1) = nat i + 1" using that(1) by simp
    have ni: "nat idx = 4 * (nat i * nat sc)"
      using that(1) sc0 by (simp add: ix nat_mult_distrib)
    have fq': "flatQuads (vs @ vr) (ns @ nr) (nat i * nat sc + nat sc)"
      by (rule flatQuads_append[OF fq l(1) l(3) rq])
    have ex: "4 * ((nat i + 1) * nat sc) = 4 * (nat i * nat sc) + 4 * nat sc"
      by (simp add: algebra_simps)
    have eq: "(nat i + 1) * nat sc = nat i * nat sc + nat sc"
      by (simp add: algebra_simps)
    have bx: "\<forall>x \<in> set (xs @ xr). x < 4 * (nat (i + 1) * nat sc)"
      using bd(1) rb(1) unfolding nk ni ex by auto
    have bl: "\<forall>x \<in> set (ls @ lr). x < 4 * (nat (i + 1) * nat sc)"
      using bd(2) rb(2) unfolding nk ni ex by auto
    have "I (i + 1) (idx + 4 * sc,
              t\<lparr>vertices := vs @ vr, texCoords := ts @ tr, normals := ns @ nr,
                indices := xs @ xr, lineIndices := ls @ lr\<rparr>)"
    proof -
      have e: "idx + 4 * sc = 4 * (i + 1) * sc" using ix by (simp add: algebra_simps)
      have c: "length (vs @ vr) = 12 * (nat (i + 1) * nat sc)"
        "length (ts @ tr) = 8 * (nat (i + 1) * nat sc)"
        "length (ns @ nr) = 12 * (nat (i + 1) * nat sc)"
        "length (xs @ xr) = 6 * (nat (i + 1) * nat sc)"
        "length (ls @ lr) = 4 * (nat (i + 1) * nat sc)"
        unfolding nk eq using l rl by simp_all
      have f: "flatQuads (vs @ vr) (ns @ nr) (nat (i + 1) * nat sc)"
        unfolding nk eq by (rule fq')
      show ?thesis
        unfolding I_def prod.case
        by (intro conjI e, rule exI[of _ "vs @ vr"], rule exI[of _ "ts @ tr"],
            rule exI[of _ "ns @ nr"], rule exI[of _ "xs @ xr"], rule exI[of _ "ls @ lr"],
            intro conjI refl c bx bl f)
    qed
    with body show ?thesis by blast
  qed
  from forLt_rule[where I = I and i = 0 and n = sd and s = "(0, t)"
      and body = "flatSideBody tmp", OF init step]
  obtain s' where run: "forLt 0 sd (flatSideBody tmp) (0, t) = Inr s'"
    and fin: "I (max 0 sd) s'"
    by auto
  obtain idx s where s': "s' = (idx, s)" by (cases s') auto
  have "max 0 sd = sd" using sd0 by simp
  with fin have "I sd (idx, s)" by (simp add: s')
  then show ?thesis using run unfolding I_def sc_def sd_def s' prod.case by blast
qed

lemma faceNormal3_representable:
  "representable (fst (faceNormal3 p1 p2 p3))"
  "representable (fst (snd (faceNormal3 p1 p2 p3)))"
  "representable (snd (snd (faceNormal3 p1 p2 p3)))"
  by (cases p1; cases p2; cases p3;
      simp add: faceNormal3_def computeFaceNormal_def Let_def triple_def numeral_2_eq_2)+

lemma flat_before_axis:
  assumes "majorRadius t = Some R" "minorRadius t = Some r"
    "0 \<le> sectorCount t" "0 \<le> sideCount t"
  shows "\<exists>t3. buildVerticesFlat t
            = (if upAxis t \<noteq> 3 then changeUpAxis 3 (upAxis t) t3 else Inr t3)
          \<and> sameParameters t t3 \<and> synced t3
          \<and> getVertexCount t3 = 4 * (nat (sideCount t) * nat (sectorCount t))
          \<and> length (indices t3) = 6 * (nat (sideCount t) * nat (sectorCount t))
          \<and> length (lineIndices t3) = 4 * (nat (sideCount t) * nat (sectorCount t))
          \<and> (\<forall>x \<in> set (indices t3). x < getVertexCount t3)
          \<and> (\<forall>x \<in> set (lineIndices t3). x < getVertexCount t3)
          \<and> flatQuads (vertices t3) (normals t3) (nat (sideCount t) * nat (sectorCount t))
          \<and> list_all representable (normals t3)"
proof -
  define sc where "sc = sectorCount t"
  define sd where "sd = sideCount t"
  define Q where "Q = nat sd * nat sc"
  define ss where "ss = Fin 2 * PI / float_of_int sc"
  define sds where "sds = Fin 2 * PI / float_of_int sd"
  from flat_tmp_side_loop[OF assms, of ss sds] obtain tmp where
    run0: "forLe 0 sd (flatTmpSideBody t ss sds) [] = Inr tmp"
    and ltmp: "length tmp = nat (sd + 1) * nat (sc + 1)"
    unfolding sc_def sd_def by blast
  define t0 where "t0 = clearArrays t"
  have p0: "sectorCount t0 = sc" "sideCount t0 = sd" "0 \<le> sectorCount t0" "0 \<le> sideCount t0"
    and a0: "vertices t0 = []" "texCoords t0 = []" "normals t0 = []" "indices t0 = []"
      "lineIndices t0 = []"
    using assms by (simp_all add: t0_def clearArrays_def sc_def sd_def)
  have ltmp0: "length tmp = nat (sideCount t0 + 1) * nat (sectorCount t0 + 1)"
    using ltmp by (simp add: p0)
  from flat_side_loop[OF p0(3,4) ltmp0 a0] obtain vs ts ns xs ls where
    run1: "forLt 0 sd (flatSideBody tmp) (0, t0)
           = Inr (4 * sd * sc, t0\<lparr>vertices := vs, texCoords := ts, normals := ns,
                    indices := xs, lineIndices := ls\<rparr>)"
    and l1: "length vs = 12 * Q" "length ts = 8 * Q" "length ns = 12 * Q"
      "length xs = 6 * Q" "length ls = 4 * Q"
    and b1: "\<forall>x \<in> set xs. x < 4 * Q" "\<forall>x \<in> set ls. x < 4 * Q"
    and q1: "flatQuads vs ns Q"
    unfolding p0 Q_def by blast
  define t1 where "t1 = t0\<lparr>vertices := vs, texCoords := ts, normals := ns,
                    indices := xs, lineIndices := ls\<rparr>"
  have "shaped t1 \<and> getVertexCount t1 = 4 * Q"
    by (rule shapedI) (simp_all add: t1_def l1)
  then have sh1: "shaped t1" and v1: "getVertexCount t1 = 4 * Q" by simp_all
  from buildInterleavedVertices_shaped[OF sh1] obtain iv where
    run2: "buildInterleavedVertices t1 = Inr (t1\<lparr>interleavedVertices := iv\<rparr>)"
    and sy2: "synced (t1\<lparr>interleavedVertices := iv\<rparr>)"
    by blast
  define t3 where "t3 = t1\<lparr>interleavedVertices := iv\<rparr>"
  have v3: "getVertexCount t3 = 4 * Q" using v1 by (simp add: t3_def getVertexCount_def)
  have f3: "upAxis t3 = upAxis t" "normals t3 = ns" "vertices t3 = vs" "indices t3 = xs"
    "lineIndices t3 = ls"
    and sp: "sameParameters t t3"
    by (simp_all add: t3_def t1_def t0_def clearArrays_def sameParameters_def)
  have c1: "buildVerticesFlat t
            = (if upAxis t \<noteq> 3 then changeUpAxis 3 (upAxis t) t3 else Inr t3)"
    using run0 run1 run2 p0 f3(1)
    by (simp add: buildVerticesFlat_def Let_def t0_def[symmetric] sc_def[symmetric]
        sd_def[symmetric] ss_def[symmetric] sds_def[symmetric] t1_def[symmetric]
        t3_def[symmetric])
  have c3: "synced t3" using sy2 by (simp add: t3_def)
  have c4: "getVertexCount t3 = 4 * (nat (sideCount t) * nat (sectorCount t))"
    using v3 by (simp add: Q_def sc_def sd_def)
  have c5: "length (indices t3) = 6 * (nat (sideCount t) * nat (sectorCount t))"
    using l1(4) by (simp add: f3 Q_def sc_def sd_def)
  have c6: "length (lineIndices t3) = 4 * (nat (sideCount t) * nat (sectorCount t))"
    using l1(5) by (simp add: f3 Q_def sc_def sd_def)
  have c7: "\<forall>x \<in> set (indices t3). x < getVertexCount t3"
    using b1(1) by (simp add: f3 v3)
  have c8: "\<forall>x \<in> set (lineIndices t3). x < getVertexCount t3"
    using b1(2) by (simp add: f3 v3)
  have c9: "flatQuads (vertices t3) (normals t3) (nat (sideCount t) * nat (sectorCount t))"
    using q1 unfolding f3 Q_def sc_def sd_def .
  have c10: "list_all representable (normals t3)"
    unfolding f3
  proof (rule list_all_triples[where m = "4 * Q"])
    show "length ns = 3 * (4 * Q)" using l1(3) by simp
    fix p assume p: "p < 4 * Q"
    have "p div 4 < Q" "p mod 4 < 4" "p = 4 * (p div 4) + p mod 4" using p by simp_all
    with q1 have "triple ns p = faceNormal3 (triple vs (4 * (p div 4)))
        (triple vs (4 * (p div 4) + 1)) (triple vs (4 * (p div 4) + 2))"
      unfolding flatQuads_def by metis
    then show "representable (fst (triple ns p)) \<and> representable (fst (snd (triple ns p)))
                          \<and> representable (snd (snd (triple ns p)))"
      by (simp add: faceNormal3_representable)
  qed
  show ?thesis
    by (intro exI[of _ t3] conjI c1 sp c3 c4 c5 c6 c7 c8 c9 c10)
qed

lemma validParametersD:
  assumes "validParameters t"
  obtains R r where "majorRadius t = Some R" "0 < R" "minorRadius t = Some r" "0 < r"
    "3 \<le> sectorCount t" "2 \<le> sideCount t" "1 \<le> upAxis t" "upAxis t \<le> 3"
  using assms by (auto simp: validParameters_def split: option.splits)

lemma sameParameters_valid:
  "sameParameters t t' \<Longrightarrow> validParameters t \<Longrightarrow> validParameters t'"
  by (simp add: sameParameters_def validParameters_def)

lemma changeUpAxis_run:
  assumes "synced t"
  shows "\<exists>t'. changeUpAxis from to t = Inr t' \<and> sameParameters t t' \<and> synced t'
          \<and> texCoords t' = texCoords t \<and> indices t' = indices t
          \<and> lineIndices t' = lineIndices t
          \<and> length (vertices t') = length (vertices t)
          \<and> length (normals t') = length (normals t)
          \<and> getVertexCount t' = getVertexCount t
          \<and> (\<forall>q < getVertexCount t.
                triple (vertices t') q = applyColumns (axisColumns from to) (triple (vertices t) q)
              \<and> triple (normals t') q = applyColumns (axisColumns from to) (triple (normals t) q))
          \<and> list_all representable (normals t')"
proof -
  from changeUpAxis_synced[OF assms(1), of "from" to] obtain vs ns iv where
    run: "changeUpAxis from to t
            = Inr (t\<lparr>vertices := vs, normals := ns, interleavedVertices := iv\<rparr>)"
    and sy: "synced (t\<lparr>vertices := vs, normals := ns, interleavedVertices := iv\<rparr>)"
    and l: "length vs = length (vertices t)" "length ns = length (normals t)"
    and e: "\<forall>q < getVertexCount t.
                triple vs q = applyColumns (axisColumns from to) (triple (vertices t) q)
              \<and> triple ns q = applyColumns (axisColumns from to) (triple (normals t) q)"
    by blast
  define t' where "t' = t\<lparr>vertices := vs, normals := ns, interleavedVertices := iv\<rparr>"
  have f: "vertices t' = vs" "normals t' = ns" "texCoords t' = texCoords t"
    "indices t' = indices t" "lineIndices t' = lineIndices t"
    and sp: "sameParameters t t'"
    by (simp_all add: t'_def sameParameters_def)
  have v: "getVertexCount t' = getVertexCount t"
    by (simp add: getVertexCount_def f l)
  have e': "\<forall>q < getVertexCount t.
                triple (vertices t') q = applyColumns (axisColumns from to) (triple (vertices t) q)
              \<and> triple (normals t') q = applyColumns (axisColumns from to) (triple (normals t) q)"
    using e unfolding f .
  have l': "length (vertices t') = length (vertices t)" "length (normals t') = length (normals t)"
    using l by (simp_all add: f)
  have ln: "length (normals t') = 3 * getVertexCount t"
    using l' assms by (simp add: synced_def shaped_def)
  have rn: "list_all representable (normals t')"
  proof (rule list_all_triples[OF ln])
    fix q assume "q < getVertexCount t"
    with e' have "triple (normals t') q
        = applyColumns (axisColumns from to) (triple (normals t) q)"
      by simp
    then show "representable (fst (triple (normals t') q))
        \<and> representable (fst (snd (triple (normals t') q)))
        \<and> representable (snd (snd (triple (normals t') q)))"
      by (simp add: applyColumns_representable)
  qed
  show ?thesis
    using run sy unfolding t'_def[symmetric]
    by (intro exI[of _ t'] conjI sp f(3,4,5) l' v e' rn)
qed

lemma changeUpAxis_inv:
  assumes "synced t" "meshCounts t" "indicesInRange t"
  shows "\<exists>t'. changeUpAxis from to t = Inr t' \<and> sameParameters t t' \<and> synced t'
          \<and> meshCounts t' \<and> indicesInRange t'
          \<and> texCoords t' = texCoords t \<and> indices t' = indices t
          \<and> lineIndices t' = lineIndices t
          \<and> length (vertices t') = length (vertices t)
          \<and> length (normals t') = length (normals t)
          \<and> (\<forall>q < getVertexCount t.
                triple (vertices t') q = applyColumns (axisColumns from to) (triple (vertices t) q)
              \<and> triple (normals t') q = applyColumns (axisColumns from to) (triple (normals t) q))
          \<and> list_all representable (normals t')"
proof -
  from changeUpAxis_run[OF assms(1), of "from" to] obtain t' where
    c: "changeUpAxis from to t = Inr t'" "sameParameters t t'" "synced t'"
      "texCoords t' = texCoords t" "indices t' = indices t" "lineIndices t' = lineIndices t"
      "length (vertices t') = length (vertices t)" "length (normals t') = length (normals t)"
      "getVertexCount t' = getVertexCount t"
    and e: "\<forall>q < getVertexCount t.
                triple (vertices t') q = applyColumns (axisColumns from to) (triple (vertices t) q)
              \<and> triple (normals t') q = applyColumns (axisColumns from to) (triple (normals t) q)"
    and rn: "list_all representable (normals t')"
    by blast
  have mc: "meshCounts t'"
    using assms(2) c(2,5,6,9) by (simp add: meshCounts_def sameParameters_def)
  have ir: "indicesInRange t'"
    using assms(3) c(5,6,9) by (simp add: indicesInRange_def)
  show ?thesis
    by (intro exI[of _ t'] conjI c(1,2,3) mc ir c(4,5,6,7,8) e rn)
qed

lemma buildVerticesSmooth_ok:
  assumes "majorRadius t = Some R" "minorRadius t = Some r"
    "0 \<le> sectorCount t" "0 \<le> sideCount t"
  shows "\<exists>t'. buildVerticesSmooth t = Inr t' \<and> sameParameters t t' \<and> synced t'
          \<and> getVertexCount t' = nat (sideCount t + 1) * nat (sectorCount t + 1)
          \<and> length (indices t') = 6 * (nat (sideCount t) * nat (sectorCount t))
          \<and> length (lineIndices t') = 4 * (nat (sideCount t) * nat (sectorCount t))
          \<and> indicesInRange t' \<and> list_all representable (normals t')"
proof -
  from smooth_before_axis[OF assms] obtain t3 where
    run: "buildVerticesSmooth t
            = (if upAxis t \<noteq> 3 then changeUpAxis 3 (upAxis t) t3 else Inr t3)"
    and t3: "sameParameters t t3" "synced t3"
      "getVertexCount t3 = nat (sideCount t + 1) * nat (sectorCount t + 1)"
      "length (indices t3) = 6 * (nat (sideCount t) * nat (sectorCount t))"
      "length (lineIndices t3) = 4 * (nat (sideCount t) * nat (sectorCount t))"
      "\<forall>x \<in> set (indices t3). x < getVertexCount t3"
      "\<forall>x \<in> set (lineIndices t3). x < getVertexCount t3"
      "list_all representable (normals t3)"
    by blast
  show ?thesis
  proof (cases "upAxis t = 3")
    case True
    with run t3 show ?thesis
      by (intro exI[of _ t3]) (simp add: indicesInRange_def)
  next
    case False
    from changeUpAxis_run[OF t3(2), of 3 "upAxis t"] obtain t' where
      c: "changeUpAxis 3 (upAxis t) t3 = Inr t'" "sameParameters t3 t'" "synced t'"
        "indices t' = indices t3" "lineIndices t' = lineIndices t3"
        "getVertexCount t' = getVertexCount t3" "list_all representable (normals t')"
      by blast
    have "sameParameters t t'" using t3(1) c(2) by (simp add: sameParameters_def)
    with run False c t3 show ?thesis
      by (intro exI[of _ t']) (simp add: indicesInRange_def)
  qed
qed

lemma buildVerticesFlat_ok:
  assumes "majorRadius t = Some R" "minorRadius t = Some r"
    "0 \<le> sectorCount t" "0 \<le> sideCount t"
  shows "\<exists>t'. buildVerticesFlat t = Inr t' \<and> sameParameters t t' \<and> synced t'
          \<and> getVertexCount t' = 4 * (nat (sideCount t) * nat (sectorCount t))
          \<and> length (indices t') = 6 * (nat (sideCount t) * nat (sectorCount t))
          \<and> length (lineIndices t') = 4 * (nat (sideCount t) * nat (sectorCount t))
          \<and> indicesInRange t' \<and> list_all representable (normals t')"
proof -
  from flat_before_axis[OF assms] obtain t3 where
    run: "buildVerticesFlat t
            = (if upAxis t \<noteq> 3 then changeUpAxis 3 (upAxis t) t3 else Inr t3)"
    and t3: "sameParameters t t3" "synced t3"
      "getVertexCount t3 = 4 * (nat (sideCount t) * nat (sectorCount t))"
      "length (indices t3) = 6 * (nat (sideCount t) * nat (sectorCount t))"
      "length (lineIndices t3) = 4 * (nat (sideCount t) * nat (sectorCount t))"
      "\<forall>x \<in> set (indices t3). x < getVertexCount t3"
      "\<forall>x \<in> set (lineIndices t3). x < getVertexCount t3"
      "list_all representable (normals t3)"
    by blast
  show ?thesis
  proof (cases "upAxis t = 3")
    case True
    with run t3 show ?thesis
      by (intro exI[of _ t3]) (simp add: indicesInRange_def)
  next
    case False
    from changeUpAxis_run[OF t3(2), of 3 "upAxis t"] obtain t' where
      c: "changeUpAxis 3 (upAxis t) t3 = Inr t'" "sameParameters t3 t'" "synced t'"
        "indices t' = indices t3" "lineIndices t' = lineIndices t3"
        "getVertexCount t' = getVertexCount t3" "list_all representable (normals t')"
      by blast
    have "sameParameters t t'" using t3(1) c(2) by (simp add: sameParameters_def)
    with run False c t3 show ?thesis
      by (intro exI[of _ t']) (simp add: indicesInRange_def)
  qed
qed

lemma rebuild_assigned:
  assumes "majorRadius t = Some R" "minorRadius t = Some r"
    "0 \<le> sectorCount t" "0 \<le> sideCount t"
  shows "\<exists>t'. (if smooth t then buildVerticesSmooth t else buildVerticesFlat t) = Inr t'
          \<and> sameParameters t t' \<and> synced t' \<and> meshCounts t' \<and> indicesInRange t'
          \<and> list_all representable (normals t')"
proof (cases "smooth t")
  case True
  from buildVerticesSmooth_ok[OF assms] obtain t' where
    "buildVerticesSmooth t = Inr t'" "sameParameters t t'" "synced t'"
    "getVertexCount t' = nat (sideCount t + 1) * nat (sectorCount t + 1)"
    "length (indices t') = 6 * (nat (sideCount t) * nat (sectorCount t))"
    "length (lineIndices t') = 4 * (nat (sideCount t) * nat (sectorCount t))"
    "indicesInRange t'" "list_all representable (normals t')"
    by blast
  with True show ?thesis
    by (intro exI[of _ t']) (simp add: meshCounts_def sameParameters_def)
next
  case False
  from buildVerticesFlat_ok[OF assms] obtain t' where
    "buildVerticesFlat t = Inr t'" "sameParameters t t'" "synced t'"
    "getVertexCount t' = 4 * (nat (sideCount t) * nat (sectorCount t))"
    "length (indices t') = 6 * (nat (sideCount t) * nat (sectorCount t))"
    "length (lineIndices t') = 4 * (nat (sideCount t) * nat (sectorCount t))"
    "indicesInRange t'" "list_all representable (normals t')"
    by blast
  with False show ?thesis
    by (intro exI[of _ t']) (simp add: meshCounts_def sameParameters_def)
qed

lemma rebuild_ok:
  assumes "validParameters t"
  shows "\<exists>t'. (if smooth t then buildVerticesSmooth t else buildVerticesFlat t) = Inr t'
          \<and> sameParameters t t' \<and> meshInv t'"
proof -
  from assms obtain R r where p: "majorRadius t = Some R" "minorRadius t = Some r"
    "3 \<le> sectorCount t" "2 \<le> sideCount t"
    by (rule validParametersD)
  have nn: "0 \<le> sectorCount t" "0 \<le> sideCount t" using p by simp_all
  from rebuild_assigned[OF p(1,2) nn] obtain t' where
    r: "(if smooth t then buildVerticesSmooth t else buildVerticesFlat t) = Inr t'"
      "sameParameters t t'" "synced t'" "meshCounts t'" "indicesInRange t'"
      "list_all representable (normals t')"
    by blast
  have "validParameters t'" by (rule sameParameters_valid[OF r(2) assms])
  with r show ?thesis by (intro exI[of _ t']) (simp add: meshInv_def)
qed

lemma buildVerticesSmooth_uninit:
  assumes "majorRadius t = None \<or> minorRadius t = None" "0 \<le> sectorCount t" "0 \<le> sideCount t"
  shows "buildVerticesSmooth t = Inl UninitializedRead"
proof (cases "minorRadius t")
  case None
  then show ?thesis by (simp add: buildVerticesSmooth_def clearArrays_def)
next
  case (Some r)
  with assms(1) have R: "majorRadius t = None" by simp
  define t0 where "t0 = clearArrays t"
  have p0: "majorRadius t0 = None" "minorRadius t0 = Some r" "0 \<le> sectorCount t0"
    "0 \<le> sideCount t0"
    using R Some assms(2,3) by (simp_all add: t0_def clearArrays_def)
  have inner: "smoothSectorBody li ss xy z 0 0 t0 = Inl UninitializedRead" for li ss xy z
    using p0(1) by (simp add: smoothSectorBody_def)
  have row: "forLe 0 (sectorCount t0) (smoothSectorBody li ss xy z 0) t0 = Inl UninitializedRead"
    for li ss xy z
    by (rule forLe_Inl[where body = "smoothSectorBody li ss xy z 0", OF p0(3) inner])
  have side: "smoothSideBody li ss sds 0 t0 = Inl UninitializedRead" for li ss sds
    using p0(2) row by (simp add: smoothSideBody_def Let_def)
  have "forLe 0 (sideCount t0) (smoothSideBody li ss sds) t0 = Inl UninitializedRead"
    for li ss sds
    by (rule forLe_Inl[where body = "smoothSideBody li ss sds", OF p0(4) side])
  then show ?thesis using p0(2) by (simp add: buildVerticesSmooth_def Let_def t0_def[symmetric])
qed

lemma buildVerticesFlat_uninit:
  assumes "majorRadius t = None \<or> minorRadius t = None" "0 \<le> sideCount t"
  shows "buildVerticesFlat t = Inl UninitializedRead"
proof -
  have side: "flatTmpSideBody t ss sds 0 [] = Inl UninitializedRead" for ss sds
    using assms(1) by (auto simp: flatTmpSideBody_def split: option.splits)
  have "forLe 0 (sideCount t) (flatTmpSideBody t ss sds) [] = Inl UninitializedRead" for ss sds
    by (rule forLe_Inl[where body = "flatTmpSideBody t ss sds", OF assms(2) side])
  then show ?thesis by (simp add: buildVerticesFlat_def Let_def)
qed

lemma Torus_set_members_eq:
  "Torus_set_members majorR minorR sectors sides sm up t =
     t\<lparr>majorRadius := (if 0 < majorR then Some majorR else majorRadius t),
       minorRadius := (if 0 < minorR then Some minorR else minorRadius t),
       sectorCount := (if sectors < 3 then 3 else sectors),
       sideCount := (if sides < 2 then 2 else sides),
       smooth := sm,
       upAxis := (if up < 1 \<or> 3 < up then 3 else up)\<rparr>"
  by (simp add: Torus_set_members_def Let_def MIN_SECTOR_COUNT_def MIN_SIDE_COUNT_def)

lemma Torus_set_members_fields:
  "majorRadius (Torus_set_members majorR minorR sectors sides sm up t)
     = (if 0 < majorR then Some majorR else majorRadius t)"
  "minorRadius (Torus_set_members majorR minorR sectors sides sm up t)
     = (if 0 < minorR then Some minorR else minorRadius t)"
  "sectorCount (Torus_set_members majorR minorR sectors sides sm up t)
     = (if sectors < 3 then 3 else sectors)"
  "sideCount (Torus_set_members majorR minorR sectors sides sm up t)
     = (if sides < 2 then 2 else sides)"
  "smooth (Torus_set_members majorR minorR sectors sides sm up t) = sm"
  "upAxis (Torus_set_members majorR minorR sectors sides sm up t)
     = (if up < 1 \<or> 3 < up then 3 else up)"
  "interleavedStride (Torus_set_members majorR minorR sectors sides sm up t)
     = interleavedStride t"
  by (simp_all add: Torus_set_members_eq)

lemma Torus_set_unfold:
  "Torus_set majorR minorR sectors sides sm up t =
     (if sm then buildVerticesSmooth (Torus_set_members majorR minorR sectors sides sm up t)
      else buildVerticesFlat (Torus_set_members majorR minorR sectors sides sm up t))"
  by (simp add: Torus_set_def Let_def)

lemma Torus_set_uninit:
  assumes "(\<not> 0 < majorR \<and> majorRadius t = None) \<or> (\<not> 0 < minorR \<and> minorRadius t = None)"
  shows "Torus_set majorR minorR sectors sides sm up t = Inl UninitializedRead"
proof -
  define t9 where "t9 = Torus_set_members majorR minorR sectors sides sm up t"
  have u: "majorRadius t9 = None \<or> minorRadius t9 = None"
    using assms by (auto simp: t9_def Torus_set_members_fields)
  have c: "0 \<le> sectorCount t9" "0 \<le> sideCount t9"
    by (simp_all add: t9_def Torus_set_members_fields)
  show ?thesis
    unfolding Torus_set_unfold t9_def[symmetric]
    using buildVerticesSmooth_uninit[OF u c] buildVerticesFlat_uninit[OF u c(2)] by simp
qed

lemma Torus_set_assigned:
  assumes "0 < majorR \<or> majorRadius t \<noteq> None" "0 < minorR \<or> minorRadius t \<noteq> None"
  shows "\<exists>t'. Torus_set majorR minorR sectors sides sm up t = Inr t'
          \<and> sameParameters (Torus_set_members majorR minorR sectors sides sm up t) t'
          \<and> synced t' \<and> meshCounts t' \<and> indicesInRange t'
          \<and> list_all representable (normals t')"
proof -
  define t9 where "t9 = Torus_set_members majorR minorR sectors sides sm up t"
  have "majorRadius t9 \<noteq> None" "minorRadius t9 \<noteq> None"
    using assms by (auto simp: t9_def Torus_set_members_fields)
  then obtain R r where p: "majorRadius t9 = Some R" "minorRadius t9 = Some r"
    by auto
  have c: "0 \<le> sectorCount t9" "0 \<le> sideCount t9" and sm: "smooth t9 = sm"
    by (simp_all add: t9_def Torus_set_members_fields)
  from rebuild_assigned[OF p c] obtain t' where
    r: "(if smooth t9 then buildVerticesSmooth t9 else buildVerticesFlat t9) = Inr t'"
      "sameParameters t9 t'" "synced t'" "meshCounts t'" "indicesInRange t'"
      "list_all representable (normals t')"
    by blast
  have "Torus_set majorR minorR sectors sides sm up t = Inr t'"
    unfolding Torus_set_unfold t9_def[symmetric] using r(1) by (simp add: sm)
  with r show ?thesis unfolding t9_def by blast
qed

lemma Torus_set_ok:
  assumes "0 < majorR \<or> (\<exists>R. majorRadius t = Some R \<and> 0 < R)"
    "0 < minorR \<or> (\<exists>r. minorRadius t = Some r \<and> 0 < r)"
  shows "\<exists>t'. Torus_set majorR minorR sectors sides sm up t = Inr t' \<and> meshInv t'
          \<and> interleavedStride t' = interleavedStride t
          \<and> majorRadius t' = (if 0 < majorR then Some majorR else majorRadius t)
          \<and> minorRadius t' = (if 0 < minorR then Some minorR else minorRadius t)
          \<and> sectorCount t' = (if sectors < 3 then 3 else sectors)
          \<and> sideCount t' = (if sides < 2 then 2 else sides)
          \<and> smooth t' = sm
          \<and> upAxis t' = (if up < 1 \<or> 3 < up then 3 else up)"
proof -
  define t9 where "t9 = Torus_set_members majorR minorR sectors sides sm up t"
  have v: "validParameters t9"
    using assms by (auto simp: validParameters_def t9_def Torus_set_members_fields)
  have h: "0 < majorR \<or> majorRadius t \<noteq> None" "0 < minorR \<or> minorRadius t \<noteq> None"
    using assms by auto
  from Torus_set_assigned[OF h, of sectors sides sm up] obtain t' where
    run: "Torus_set majorR minorR sectors sides sm up t = Inr t'"
    and sp: "sameParameters t9 t'"
    and r: "synced t'" "meshCounts t'" "indicesInRange t'" "list_all representable (normals t')"
    unfolding t9_def by blast
  have "validParameters t'" by (rule sameParameters_valid[OF sp v])
  with r have inv: "meshInv t'" by (simp add: meshInv_def)
  show ?thesis
    using run inv sp unfolding sameParameters_def t9_def Torus_set_members_fields
    by (intro exI[of _ t']) simp
qed

lemma Torus_ok:
  assumes "0 < majorR" "0 < minorR"
  shows "\<exists>t. Torus majorR minorR sectors sides sm up = Inr t \<and> torusInv t
          \<and> majorRadius t = Some majorR \<and> minorRadius t = Some minorR
          \<and> sectorCount t = (if sectors < 3 then 3 else sectors)
          \<and> sideCount t = (if sides < 2 then 2 else sides)
          \<and> smooth t = sm
          \<and> upAxis t = (if up < 1 \<or> 3 < up then 3 else up)"
proof -
  from Torus_set_ok[of majorR unconstructed minorR sectors sides sm up] assms
  obtain t where "Torus_set majorR minorR sectors sides sm up unconstructed = Inr t"
    "meshInv t" "interleavedStride t = interleavedStride unconstructed"
    "majorRadius t = Some majorR" "minorRadius t = Some minorR"
    "sectorCount t = (if sectors < 3 then 3 else sectors)"
    "sideCount t = (if sides < 2 then 2 else sides)"
    "smooth t = sm"
    "upAxis t = (if up < 1 \<or> 3 < up then 3 else up)"
    by auto
  then show ?thesis
    by (intro exI[of _ t]) (simp add: Torus_def torusInv_def unconstructed_def)
qed

lemma Torus_uninit:
  "\<not> 0 < majorR \<or> \<not> 0 < minorR
   \<Longrightarrow> Torus majorR minorR sectors sides sm up = Inl UninitializedRead"
  unfolding Torus_def by (rule Torus_set_uninit) (auto simp: unconstructed_def)

lemma swap13_range:
  assumes "length xs = 3 * m" "length ys = 3 * m"
    "\<forall>q < m. triple ys q = swap13 (triple xs q)" "\<forall>x \<in> set xs. x < (n::nat)"
  shows "\<forall>y \<in> set ys. y < n"
proof
  fix y assume "y \<in> set ys"
  from set_triples[OF assms(2) this] obtain q where q: "q < m"
    and y: "y = fst (triple ys q) \<or> y = fst (snd (triple ys q)) \<or> y = snd (snd (triple ys q))"
    by blast
  have "triple ys q = swap13 (triple xs q)" using assms(3) q by simp
  with y have "y = snd (snd (triple xs q)) \<or> y = fst (snd (triple xs q)) \<or> y = fst (triple xs q)"
    by (auto simp: swap13_def split: prod.splits)
  with triple_in_set[OF assms(1) q] have "y \<in> set xs" by auto
  with assms(4) show "y < n" by simp
qed

lemma reverseNormals_inv:
  assumes "meshInv t"
  shows "\<exists>t'. reverseNormals t = Inr t' \<and> sameParameters t t' \<and> meshInv t'
          \<and> vertices t' = vertices t \<and> texCoords t' = texCoords t
          \<and> lineIndices t' = lineIndices t
          \<and> normals t' = map uminus (normals t)
          \<and> length (indices t') = length (indices t)
          \<and> (\<forall>q < getTriangleCount t. triple (indices t') q = swap13 (triple (indices t) q))"
proof -
  define m where "m = 2 * (nat (sideCount t) * nat (sectorCount t))"
  have sy: "synced t" and mc: "meshCounts t" and ir: "indicesInRange t"
    and vp: "validParameters t" and rp: "list_all representable (normals t)"
    using assms by (simp_all add: meshInv_def)
  have lm: "length (indices t) = 3 * m" using mc by (simp add: meshCounts_def m_def)
  then have tc: "getTriangleCount t = m" by (simp add: getTriangleCount_def getIndexCount_def)
  from reverseNormals_synced[OF sy rp lm] obtain iv xs where
    run: "reverseNormals t = Inr (t\<lparr>normals := map uminus (normals t),
            interleavedVertices := iv, indices := xs\<rparr>)"
    and sy': "synced (t\<lparr>normals := map uminus (normals t),
            interleavedVertices := iv, indices := xs\<rparr>)"
    and l: "length xs = 3 * m"
    and e: "\<forall>q < m. triple xs q = swap13 (triple (indices t) q)"
    by blast
  define t' where "t' = t\<lparr>normals := map uminus (normals t),
            interleavedVertices := iv, indices := xs\<rparr>"
  have f: "vertices t' = vertices t" "texCoords t' = texCoords t"
    "lineIndices t' = lineIndices t" "normals t' = map uminus (normals t)" "indices t' = xs"
    and sp: "sameParameters t t'"
    by (simp_all add: t'_def sameParameters_def)
  have v: "getVertexCount t' = getVertexCount t" by (simp add: getVertexCount_def f)
  have mc': "meshCounts t'"
    using mc sp l lm by (simp add: meshCounts_def v f sameParameters_def)
  have "\<forall>y \<in> set xs. y < getVertexCount t"
    by (rule swap13_range[OF lm l e]) (use ir in \<open>simp add: indicesInRange_def\<close>)
  then have ir': "indicesInRange t'"
    using ir by (simp add: indicesInRange_def v f)
  have "list_all representable (normals t')"
    using rp by (simp add: f list_all_iff)
  then have mi: "meshInv t'"
    using sameParameters_valid[OF sp vp] sy' mc' ir' by (simp add: meshInv_def t'_def)
  have len: "length (indices t') = length (indices t)" using l lm by (simp add: f)
  have e': "\<forall>q < getTriangleCount t. triple (indices t') q = swap13 (triple (indices t) q)"
    using e unfolding tc f .
  show ?thesis
    using run unfolding t'_def[symmetric]
    by (intro exI[of _ t'] conjI sp mi f(1,2,3,4) len e')
qed

lemma setUpAxis_inv:
  assumes "meshInv t"
  shows "\<exists>t'. setUpAxis up t = Inr t' \<and> meshInv t'
          \<and> interleavedStride t' = interleavedStride t
          \<and> texCoords t' = texCoords t \<and> indices t' = indices t
          \<and> lineIndices t' = lineIndices t"
proof (cases "upAxis t = up \<or> up < 1 \<or> up > 3")
  case True
  with assms show ?thesis by (simp add: setUpAxis_def)
next
  case False
  have sy: "synced t" and mc: "meshCounts t" and ir: "indicesInRange t"
    and vp: "validParameters t"
    using assms by (simp_all add: meshInv_def)
  from changeUpAxis_inv[OF sy mc ir, of "upAxis t" up] obtain t1 where
    c: "changeUpAxis (upAxis t) up t = Inr t1" "sameParameters t t1" "synced t1"
      "meshCounts t1" "indicesInRange t1" "texCoords t1 = texCoords t"
      "indices t1 = indices t" "lineIndices t1 = lineIndices t"
      "list_all representable (normals t1)"
    by blast
  define t' where "t' = t1\<lparr>upAxis := up\<rparr>"
  have run: "setUpAxis up t = Inr t'" using False c(1) by (simp add: setUpAxis_def t'_def)
  have vp': "validParameters t'"
    using vp c(2) False by (simp add: validParameters_def sameParameters_def t'_def)
  have "synced t'" "meshCounts t'" "indicesInRange t'" "list_all representable (normals t')"
    using c(3,4,5,9)
    by (simp_all add: t'_def synced_def shaped_def meshCounts_def indicesInRange_def
        getVertexCount_def)
  with vp' have "meshInv t'" by (simp add: meshInv_def)
  moreover have "interleavedStride t' = interleavedStride t"
    using c(2) by (simp add: t'_def sameParameters_def)
  ultimately show ?thesis using run c(6,7,8) by (intro exI[of _ t']) (simp add: t'_def)
qed

lemma setSmooth_inv:
  assumes "meshInv t"
  shows "\<exists>t'. setSmooth sm t = Inr t' \<and> meshInv t'
          \<and> interleavedStride t' = interleavedStride t"
proof (cases "smooth t = sm")
  case True
  with assms show ?thesis by (simp add: setSmooth_def)
next
  case False
  define t1 where "t1 = t\<lparr>smooth := sm\<rparr>"
  have vp: "validParameters t1"
    using assms by (simp add: meshInv_def validParameters_def t1_def)
  from rebuild_ok[OF vp] obtain t' where
    r: "(if smooth t1 then buildVerticesSmooth t1 else buildVerticesFlat t1) = Inr t'"
      "sameParameters t1 t'" "meshInv t'"
    by blast
  have "setSmooth sm t = (if sm then buildVerticesSmooth t1 else buildVerticesFlat t1)"
    using False by (simp add: setSmooth_def Let_def t1_def)
  moreover have "smooth t1 = sm" by (simp add: t1_def)
  ultimately have "setSmooth sm t = Inr t'"
    using r(1) by simp
  moreover have "interleavedStride t' = interleavedStride t"
    using r(2) by (simp add: sameParameters_def t1_def)
  ultimately show ?thesis using r(3) by blast
qed

lemma setters_inv:
  assumes "meshInv t"
  shows "\<exists>t'. setMajorRadius radius t = Inr t' \<and> meshInv t'
           \<and> interleavedStride t' = interleavedStride t"
    and "\<exists>t'. setMinorRadius radius t = Inr t' \<and> meshInv t'
           \<and> interleavedStride t' = interleavedStride t"
    and "\<exists>t'. setSectorCount sectors t = Inr t' \<and> meshInv t'
           \<and> interleavedStride t' = interleavedStride t"
    and "\<exists>t'. setSideCount sides t = Inr t' \<and> meshInv t'
           \<and> interleavedStride t' = interleavedStride t"
proof -
  from assms have "validParameters t" by (simp add: meshInv_def)
  then obtain R r where p: "majorRadius t = Some R" "0 < R" "minorRadius t = Some r" "0 < r"
    by (rule validParametersD)
  have h: "0 < a \<or> (\<exists>R. majorRadius t = Some R \<and> 0 < R)"
    "0 < a \<or> (\<exists>r. minorRadius t = Some r \<and> 0 < r)" for a :: float
    using p by simp_all
  have ok: "\<exists>t'. Torus_set a b sectors' sides' sm up t = Inr t' \<and> meshInv t'
           \<and> interleavedStride t' = interleavedStride t" for a b sectors' sides' sm up
    using Torus_set_ok[OF h(1)[of a] h(2)[of b], of sectors' sides' sm up] by blast
  show "\<exists>t'. setMajorRadius radius t = Inr t' \<and> meshInv t'
           \<and> interleavedStride t' = interleavedStride t"
    using ok[of radius r "sectorCount t" "sideCount t" "smooth t" "upAxis t"] assms p
    by (cases "float_ne radius R") (simp_all add: setMajorRadius_def)
  show "\<exists>t'. setMinorRadius radius t = Inr t' \<and> meshInv t'
           \<and> interleavedStride t' = interleavedStride t"
    using ok[of R radius "sectorCount t" "sideCount t" "smooth t" "upAxis t"] assms p
    by (cases "float_ne radius r") (simp_all add: setMinorRadius_def)
  show "\<exists>t'. setSectorCount sectors t = Inr t' \<and> meshInv t'
           \<and> interleavedStride t' = interleavedStride t"
    using ok[of R r sectors "sideCount t" "smooth t" "upAxis t"] assms p
    by (cases "sectors = sectorCount t") (simp_all add: setSectorCount_def)
  show "\<exists>t'. setSideCount sides t = Inr t' \<and> meshInv t'
           \<and> interleavedStride t' = interleavedStride t"
    using ok[of R r "sectorCount t" sides "smooth t" "upAxis t"] assms p
    by (cases "sides = sideCount t") (simp_all add: setSideCount_def)
qed

lemma reachable_inv: "reachable t \<Longrightarrow> torusInv t"
proof (induction rule: reachable.induct)
  case (constructed majorR minorR sectors sides sm up t)
  show ?case
  proof (cases "0 < majorR \<and> 0 < minorR")
    case True
    with Torus_ok[of majorR minorR sectors sides sm up] constructed show ?thesis by auto
  next
    case False
    then have "\<not> 0 < majorR \<or> \<not> 0 < minorR" by auto
    from Torus_uninit[OF this, of sectors sides sm up] constructed show ?thesis by simp
  qed
next
  case (after_set t majorR minorR sectors sides sm up t')
  then have "validParameters t" by (simp add: torusInv_def meshInv_def)
  then obtain R r where p: "majorRadius t = Some R" "0 < R" "minorRadius t = Some r" "0 < r"
    by (rule validParametersD)
  have h: "0 < majorR \<or> (\<exists>R. majorRadius t = Some R \<and> 0 < R)"
    "0 < minorR \<or> (\<exists>r. minorRadius t = Some r \<and> 0 < r)"
    using p by simp_all
  from Torus_set_ok[OF h, of sectors sides sm up] after_set show ?case
    by (auto simp: torusInv_def)
next
  case (after_setMajorRadius t radius t')
  with setters_inv(1)[of t radius] show ?case by (auto simp: torusInv_def)
next
  case (after_setMinorRadius t radius t')
  with setters_inv(2)[of t radius] show ?case by (auto simp: torusInv_def)
next
  case (after_setSectorCount t sectors t')
  with setters_inv(3)[of t sectors] show ?case by (auto simp: torusInv_def)
next
  case (after_setSideCount t sides t')
  with setters_inv(4)[of t sides] show ?case by (auto simp: torusInv_def)
next
  case (after_setSmooth t sm t')
  with setSmooth_inv[of t sm] show ?case by (auto simp: torusInv_def)
next
  case (after_setUpAxis t up t')
  with setUpAxis_inv[of t up] show ?case by (auto simp: torusInv_def)
next
  case (after_reverseNormals t t')
  with reverseNormals_inv[of t] show ?case
    by (auto simp: torusInv_def sameParameters_def)
qed

lemma torus_eqI:
  fixes t t' :: torus
  assumes "sameParameters t t'" "vertices t' = vertices t" "normals t' = normals t"
    "texCoords t' = texCoords t" "indices t' = indices t" "lineIndices t' = lineIndices t"
    "interleavedVertices t' = interleavedVertices t"
  shows "t' = t"
  using assms by (cases t, cases t') (simp add: sameParameters_def)

lemma sample_reachable:
  "\<exists>t. Torus (Fin 1) (Fin (1 / 2)) 4 3 True 3 = Inr t \<and> reachable t \<and> sectorCount t = 4
       \<and> sideCount t = 3 \<and> smooth t \<and> upAxis t = 3"
proof -
  have "0 < Fin 1" "0 < Fin (1 / 2)" by (simp_all add: float_consts)
  from Torus_ok[OF this, of 4 3 True 3] obtain t where
    t: "Torus (Fin 1) (Fin (1 / 2)) 4 3 True 3 = Inr t" "sectorCount t = 4" "sideCount t = 3"
      "smooth t" "upAxis t = 3"
    by auto
  from reachable.constructed[OF t(1)] t show ?thesis by blast
qed

lemma sample_flat_reachable:
  "\<exists>t. Torus (Fin 1) (Fin (1 / 2)) 4 3 False 3 = Inr t \<and> reachable t \<and> sectorCount t = 4
       \<and> sideCount t = 3 \<and> \<not> smooth t \<and> upAxis t = 3"
proof -
  have "0 < Fin 1" "0 < Fin (1 / 2)" by (simp_all add: float_consts)
  from Torus_ok[OF this, of 4 3 False 3] obtain t where
    t: "Torus (Fin 1) (Fin (1 / 2)) 4 3 False 3 = Inr t" "sectorCount t = 4" "sideCount t = 3"
      "\<not> smooth t" "upAxis t = 3"
    by auto
  from reachable.constructed[OF t(1)] t show ?thesis by blast
qed

lemma reachable_counts:
  assumes "reachable t"
  shows "int (getVertexCount t) =
           (if smooth t then (sectorCount t + 1) * (sideCount t + 1)
            else 4 * sectorCount t * sideCount t)"
    and "int (length (indices t)) = 6 * sectorCount t * sideCount t"
    and "int (length (lineIndices t)) = 4 * sectorCount t * sideCount t"
    and "3 \<le> sectorCount t" and "2 \<le> sideCount t"
proof -
  from reachable_inv[OF assms] have mc: "meshCounts t" and vp: "validParameters t"
    by (simp_all add: torusInv_def meshInv_def)
  from vp show c: "3 \<le> sectorCount t" "2 \<le> sideCount t"
    by (simp_all add: validParameters_def)
  have n: "int (nat (sideCount t) * nat (sectorCount t)) = sectorCount t * sideCount t"
    "int (nat (sideCount t + 1) * nat (sectorCount t + 1))
       = (sectorCount t + 1) * (sideCount t + 1)"
    using c by (simp_all add: nat_mult_distrib[symmetric] mult.commute)
  show "int (getVertexCount t) =
           (if smooth t then (sectorCount t + 1) * (sideCount t + 1)
            else 4 * sectorCount t * sideCount t)"
    using mc n by (simp add: meshCounts_def)
  show "int (length (indices t)) = 6 * sectorCount t * sideCount t"
    using mc n(1) by (simp add: meshCounts_def)
  show "int (length (lineIndices t)) = 4 * sectorCount t * sideCount t"
    using mc n(1) by (simp add: meshCounts_def)
qed

lemma synced_rebuild:
  assumes "synced t"
  shows "buildInterleavedVertices t = Inr t"
proof -
  from assms have "shaped t" by (simp add: synced_def)
  from buildInterleavedVertices_shaped[OF this] obtain iv where
    run: "buildInterleavedVertices t = Inr (t\<lparr>interleavedVertices := iv\<rparr>)"
    and sy: "synced (t\<lparr>interleavedVertices := iv\<rparr>)"
    by blast
  have "interleavedVertices (t\<lparr>interleavedVertices := iv\<rparr>) = interleavedVertices t"
    by (rule synced_unique[OF assms sy]) simp_all
  then have "t\<lparr>interleavedVertices := iv\<rparr> = t" by simp
  with run show ?thesis by simp
qed

lemma synced_layout:
  assumes "synced t" "i < getVertexCount t"
  shows "interleavedVertices t ! (8 * i) = vertices t ! (3 * i)"
    "interleavedVertices t ! (8 * i + 1) = vertices t ! (3 * i + 1)"
    "interleavedVertices t ! (8 * i + 2) = vertices t ! (3 * i + 2)"
    "interleavedVertices t ! (8 * i + 3) = normals t ! (3 * i)"
    "interleavedVertices t ! (8 * i + 4) = normals t ! (3 * i + 1)"
    "interleavedVertices t ! (8 * i + 5) = normals t ! (3 * i + 2)"
    "interleavedVertices t ! (8 * i + 6) = texCoords t ! (2 * i)"
    "interleavedVertices t ! (8 * i + 7) = texCoords t ! (2 * i + 1)"
proof -
  from assms have "record8 (interleavedVertices t) i =
      (triple (vertices t) i, triple (normals t) i, couple (texCoords t) i)"
    by (simp add: synced_def)
  then show "interleavedVertices t ! (8 * i) = vertices t ! (3 * i)"
    "interleavedVertices t ! (8 * i + 1) = vertices t ! (3 * i + 1)"
    "interleavedVertices t ! (8 * i + 2) = vertices t ! (3 * i + 2)"
    "interleavedVertices t ! (8 * i + 3) = normals t ! (3 * i)"
    "interleavedVertices t ! (8 * i + 4) = normals t ! (3 * i + 1)"
    "interleavedVertices t ! (8 * i + 5) = normals t ! (3 * i + 2)"
    "interleavedVertices t ! (8 * i + 6) = texCoords t ! (2 * i)"
    "interleavedVertices t ! (8 * i + 7) = texCoords t ! (2 * i + 1)"
    by (simp_all add: record8_def triple_def couple_def)
qed

lemma swap13_twice: "swap13 (swap13 v) = v"
  by (cases v) (auto simp: swap13_def)

lemma reverseNormals_twice:
  assumes "meshInv t"
  shows "\<exists>t'. reverseNormals t = Inr t' \<and> reverseNormals t' = Inr t \<and> meshInv t'
          \<and> sameParameters t t'
          \<and> vertices t' = vertices t \<and> texCoords t' = texCoords t
          \<and> lineIndices t' = lineIndices t
          \<and> normals t' = map uminus (normals t)
          \<and> length (indices t') = length (indices t)
          \<and> (\<forall>q < getTriangleCount t. triple (indices t') q = swap13 (triple (indices t) q))"
proof -
  from reverseNormals_inv[OF assms] obtain t' where
    a: "reverseNormals t = Inr t'" "sameParameters t t'" "meshInv t'"
      "vertices t' = vertices t" "texCoords t' = texCoords t" "lineIndices t' = lineIndices t"
      "normals t' = map uminus (normals t)" "length (indices t') = length (indices t)"
      "\<forall>q < getTriangleCount t. triple (indices t') q = swap13 (triple (indices t) q)"
    by blast
  from reverseNormals_inv[OF a(3)] obtain t'' where
    b: "reverseNormals t' = Inr t''" "sameParameters t' t''" "meshInv t''"
      "vertices t'' = vertices t'" "texCoords t'' = texCoords t'"
      "lineIndices t'' = lineIndices t'"
      "normals t'' = map uminus (normals t')" "length (indices t'') = length (indices t')"
      "\<forall>q < getTriangleCount t'. triple (indices t'') q = swap13 (triple (indices t') q)"
    by blast
  have tc: "getTriangleCount t' = getTriangleCount t"
    using a(8) by (simp add: getTriangleCount_def getIndexCount_def)
  have "meshCounts t" using assms by (simp add: meshInv_def)
  then have l3: "length (indices t) = 3 * getTriangleCount t"
    by (simp add: meshCounts_def getTriangleCount_def getIndexCount_def)
  have nn: "(\<lambda>x::float. - (- x)) = (\<lambda>x. x)" by (rule ext) simp
  have ns: "normals t'' = normals t" by (simp add: b(7) a(7) comp_def nn)
  have xs: "indices t'' = indices t"
  proof (rule list3_eqI[where n = "getTriangleCount t"])
    show "length (indices t'') = 3 * getTriangleCount t" using b(8) a(8) l3 by simp
    show "length (indices t) = 3 * getTriangleCount t" by (rule l3)
    fix q assume "q < getTriangleCount t"
    then show "triple (indices t'') q = triple (indices t) q"
      using a(9) b(9) tc by (simp add: swap13_twice)
  qed
  have sy: "synced t" "synced t''" using assms b(3) by (simp_all add: meshInv_def)
  have iv: "interleavedVertices t'' = interleavedVertices t"
    by (rule synced_unique[OF sy]) (simp_all add: a b comp_def nn)
  have sp: "sameParameters t t''" using a(2) b(2) by (simp add: sameParameters_def)
  have "t'' = t"
    by (rule torus_eqI[OF sp _ ns _ xs _ iv]) (simp_all add: a b)
  with b(1) have "reverseNormals t' = Inr t" by simp
  with a show ?thesis by blast
qed

lemma axis_cases:
  assumes "a \<in> {1, 2, 3}" "b \<in> {1, 2, 3}" "a \<noteq> (b::int)"
  obtains "a = 1" "b = 2" | "a = 1" "b = 3" | "a = 2" "b = 1" | "a = 2" "b = 3"
    | "a = 3" "b = 1" | "a = 3" "b = 2"
  using assms by auto

subsection \<open>Finite floats: angles, remap and the smooth values\<close>

lemma pi_bounds: "0 \<le> 2 * pi" "2 * pi \<le> 8"
  using pi_less_4 pi_gt_zero by linarith+

lemma small_fin: "\<bar>x\<bar> \<le> 16 \<Longrightarrow> rnd x = Fin x"
  by (rule rnd_fin) (simp add: FLT_MAX_def)

lemma two_pi_fin: "Fin 2 * PI = Fin (2 * pi)"
  using pi_bounds by (simp add: PI_eq small_fin)

lemma float_of_int_fin:
  assumes "- INT_MAX \<le> k" "k \<le> INT_MAX"
  shows "float_of_int k = Fin (real_of_int k)"
proof -
  have "\<bar>real_of_int k\<bar> \<le> real_of_int INT_MAX" using assms by linarith
  also have "\<dots> \<le> FLT_MAX" by (simp add: INT_MAX_def FLT_MAX_def)
  finally show ?thesis by (simp add: float_of_int_def rnd_fin)
qed

lemma angle_fin:
  assumes "1 \<le> n" "n \<le> INT_MAX" "0 \<le> k" "k \<le> n"
  shows "float_of_int k * (Fin 2 * PI / float_of_int n)
           = Fin (real_of_int k * (2 * pi / real_of_int n))"
    and "PI - float_of_int k * (Fin 2 * PI / float_of_int n)
           = Fin (pi - real_of_int k * (2 * pi / real_of_int n))"
proof -
  have im: "0 \<le> INT_MAX" by (simp add: INT_MAX_def)
  have n: "float_of_int n = Fin (real_of_int n)" and k: "float_of_int k = Fin (real_of_int k)"
    using assms im by (simp_all add: float_of_int_fin)
  have n0: "real_of_int n \<noteq> 0" "0 < real_of_int n" using assms(1) by simp_all
  have s0: "0 \<le> 2 * pi / real_of_int n" using pi_bounds n0 by simp
  have "2 * pi / real_of_int n \<le> 2 * pi / 1"
    using assms(1) pi_bounds by (intro divide_left_mono) simp_all
  then have s1: "2 * pi / real_of_int n \<le> 8" using pi_bounds by simp
  have step: "Fin 2 * PI / float_of_int n = Fin (2 * pi / real_of_int n)"
    using s0 s1 n0 by (simp add: two_pi_fin n small_fin)
  have a0: "0 \<le> real_of_int k * (2 * pi / real_of_int n)"
    using assms(3) s0 by (intro mult_nonneg_nonneg) simp_all
  have "real_of_int k * (2 * pi / real_of_int n) = 2 * pi * (real_of_int k / real_of_int n)"
    by simp
  also have "\<dots> \<le> 2 * pi * 1"
    using assms n0 pi_bounds by (intro mult_left_mono) simp_all
  finally have a1: "real_of_int k * (2 * pi / real_of_int n) \<le> 8" using pi_bounds by simp
  show a: "float_of_int k * (Fin 2 * PI / float_of_int n)
           = Fin (real_of_int k * (2 * pi / real_of_int n))"
    using a0 a1 by (simp add: step k small_fin)
  have "\<bar>pi - real_of_int k * (2 * pi / real_of_int n)\<bar> \<le> 16"
    using a0 a1 pi_bounds pi_gt_zero by linarith
  then show "PI - float_of_int k * (Fin 2 * PI / float_of_int n)
           = Fin (pi - real_of_int k * (2 * pi / real_of_int n))"
    by (subst a) (simp add: PI_eq small_fin)
qed

lemma smooth_normal_fin:
  assumes "0 < r" "1 / FLT_MAX \<le> r" "r \<le> FLT_MAX"
  shows "Fin r * cosf (Fin u) * cosf (Fin v) * (1 / Fin r) = Fin (cos u * cos v)"
    and "Fin r * cosf (Fin u) * sinf (Fin v) * (1 / Fin r) = Fin (cos u * sin v)"
    and "Fin r * sinf (Fin u) * (1 / Fin r) = Fin (sin u)"
proof -
  have r0: "r \<noteq> 0" using assms(1) by simp
  have "1 / r \<le> FLT_MAX"
    using assms(1,2) FLT_MAX_pos(1) by (simp add: field_simps)
  then have "\<bar>1 / r\<bar> \<le> FLT_MAX" using assms(1) by simp
  then have inv: "1 / Fin r = Fin (1 / r)" using r0 by (simp add: float_consts rnd_fin)
  have le1: "\<bar>a\<bar> \<le> 1 \<Longrightarrow> \<bar>r * a\<bar> \<le> FLT_MAX" for a
  proof -
    assume "\<bar>a\<bar> \<le> 1"
    then have "\<bar>r * a\<bar> \<le> r * 1" unfolding abs_mult using assms(1) by (intro mult_mono) simp_all
    with assms(3) show ?thesis by simp
  qed
  have cc: "\<bar>cos u * cos v\<bar> \<le> 1" "\<bar>cos u * sin v\<bar> \<le> 1"
    unfolding abs_mult by (intro mult_le_one abs_cos_le_one abs_sin_le_one abs_ge_zero)+
  have one: "\<bar>a\<bar> \<le> 1 \<Longrightarrow> rnd a = Fin a" for a
    by (rule small_fin) simp
  have m1: "Fin r * cosf (Fin u) = Fin (r * cos u)" "Fin r * sinf (Fin u) = Fin (r * sin u)"
    using le1[of "cos u"] le1[of "sin u"] by (simp_all add: rnd_fin)
  have m2: "Fin (r * cos u) * cosf (Fin v) = Fin (r * (cos u * cos v))"
    "Fin (r * cos u) * sinf (Fin v) = Fin (r * (cos u * sin v))"
    using le1[OF cc(1)] le1[OF cc(2)] by (simp_all add: rnd_fin mult.assoc)
  have c: "r * a * (1 / r) = a" for a using r0 by simp
  show "Fin r * cosf (Fin u) * cosf (Fin v) * (1 / Fin r) = Fin (cos u * cos v)"
    unfolding m1 m2 inv using one[OF cc(1)] r0 by simp
  show "Fin r * cosf (Fin u) * sinf (Fin v) * (1 / Fin r) = Fin (cos u * sin v)"
    unfolding m1 m2 inv using one[OF cc(2)] r0 by simp
  show "Fin r * sinf (Fin u) * (1 / Fin r) = Fin (sin u)"
    unfolding m1 inv using one[of "sin u"] r0 by simp
qed

lemma applyColumns_axis:
  assumes "\<bar>x\<bar> \<le> FLT_MAX" "\<bar>y\<bar> \<le> FLT_MAX" "\<bar>z\<bar> \<le> FLT_MAX"
  shows "applyColumns (axisColumns 1 2) (Fin x, Fin y, Fin z) = (Fin (- y), Fin x, Fin z)"
    "applyColumns (axisColumns 1 3) (Fin x, Fin y, Fin z) = (Fin (- z), Fin y, Fin x)"
    "applyColumns (axisColumns 2 1) (Fin x, Fin y, Fin z) = (Fin y, Fin (- x), Fin z)"
    "applyColumns (axisColumns 2 3) (Fin x, Fin y, Fin z) = (Fin x, Fin (- z), Fin y)"
    "applyColumns (axisColumns 3 1) (Fin x, Fin y, Fin z) = (Fin z, Fin y, Fin (- x))"
    "applyColumns (axisColumns 3 2) (Fin x, Fin y, Fin z) = (Fin x, Fin z, Fin (- y))"
  using assms FLT_MAX_pos(3)
  by (simp_all add: applyColumns_def axisColumns_def float_consts rnd_fin)


lemma finite3E:
  assumes "finite3 v"
  obtains x y z where "v = (Fin x, Fin y, Fin z)" "\<bar>x\<bar> \<le> FLT_MAX" "\<bar>y\<bar> \<le> FLT_MAX"
    "\<bar>z\<bar> \<le> FLT_MAX"
proof -
  obtain a b c where v: "v = (a, b, c)" by (cases v) auto
  with assms have "isfinite a" "isfinite b" "isfinite c" by (simp_all add: finite3_def)
  then show ?thesis using v that by (auto elim!: isfiniteE)
qed

lemma axis_inverse:
  assumes "a \<in> {1, 2, 3}" "b \<in> {1, 2, 3}" "a \<noteq> b" "finite3 v"
  shows "applyColumns (axisColumns b a) (applyColumns (axisColumns a b) v) = v"
proof -
  from assms(4) obtain x y z where v: "v = (Fin x, Fin y, Fin z)"
    and b: "\<bar>x\<bar> \<le> FLT_MAX" "\<bar>y\<bar> \<le> FLT_MAX" "\<bar>z\<bar> \<le> FLT_MAX"
    by (rule finite3E)
  show ?thesis
    unfolding v using b
    by (rule_tac axis_cases[OF assms(1-3)]) (simp_all add: applyColumns_axis)
qed

lemma axis_finite3:
  assumes "a \<in> {1, 2, 3}" "b \<in> {1, 2, 3}" "a \<noteq> b" "finite3 v"
  shows "finite3 (applyColumns (axisColumns a b) v)"
proof -
  from assms(4) obtain x y z where v: "v = (Fin x, Fin y, Fin z)"
    and b: "\<bar>x\<bar> \<le> FLT_MAX" "\<bar>y\<bar> \<le> FLT_MAX" "\<bar>z\<bar> \<le> FLT_MAX"
    by (rule finite3E)
  show ?thesis
    unfolding v using b
    by (rule_tac axis_cases[OF assms(1-3)]) (simp_all add: applyColumns_axis finite3_def)
qed

lemma axis_length:
  assumes "a \<in> {1, 2, 3}" "b \<in> {1, 2, 3}" "a \<noteq> b" "finite3 v"
  shows "vectorLength (applyColumns (axisColumns a b) v) = vectorLength v"
proof -
  from assms(4) obtain x y z where v: "v = (Fin x, Fin y, Fin z)"
    and b: "\<bar>x\<bar> \<le> FLT_MAX" "\<bar>y\<bar> \<le> FLT_MAX" "\<bar>z\<bar> \<le> FLT_MAX"
    by (rule finite3E)
  show ?thesis
    unfolding v using b
    by (rule_tac axis_cases[OF assms(1-3)])
       (simp_all add: applyColumns_axis vectorLength_def add_ac)
qed


lemma unit_finite3:
  "finite3 (Fin (cos u * cos v), Fin (cos u * sin v), Fin (sin u))"
proof -
  have cc: "\<bar>cos u * cos v\<bar> \<le> 1" "\<bar>cos u * sin v\<bar> \<le> 1" "\<bar>sin u\<bar> \<le> 1"
    unfolding abs_mult
    by (intro mult_le_one abs_cos_le_one abs_sin_le_one abs_ge_zero)+
  moreover have "\<bar>a\<bar> \<le> 1 \<Longrightarrow> \<bar>a\<bar> \<le> FLT_MAX" for a
    using FLT_MAX_pos(2) by linarith
  ultimately show ?thesis by (simp add: finite3_def)
qed

lemma smooth_values:
  assumes "majorRadius t = Some R" "minorRadius t = Some r"
    "0 \<le> sectorCount t" "0 \<le> sideCount t"
  shows "\<exists>t'. buildVerticesSmooth t = Inr t'
          \<and> getVertexCount t' = nat (sideCount t + 1) * nat (sectorCount t + 1)
          \<and> length (vertices t') = 3 * getVertexCount t'
          \<and> length (normals t') = 3 * getVertexCount t'
          \<and> (\<forall>i j. 0 \<le> i \<and> i \<le> sideCount t \<and> 0 \<le> j \<and> j \<le> sectorCount t \<longrightarrow>
               (let u = PI - float_of_int i * (Fin 2 * PI / float_of_int (sideCount t));
                    v = float_of_int j * (Fin 2 * PI / float_of_int (sectorCount t));
                    n = (r * cosf u * cosf v * (1 / r), r * cosf u * sinf v * (1 / r),
                         r * sinf u * (1 / r));
                    p = (r * cosf u * cosf v + R * cosf v, r * cosf u * sinf v + R * sinf v,
                         r * sinf u)
                in triple (normals t') (nat (i * (sectorCount t + 1) + j))
                     = (if upAxis t = 3 then n else applyColumns (axisColumns 3 (upAxis t)) n)
                 \<and> triple (vertices t') (nat (i * (sectorCount t + 1) + j))
                     = (if upAxis t = 3 then p else applyColumns (axisColumns 3 (upAxis t)) p)))"
proof -
  define N where "N = (\<lambda>i j.
     (r * cosf (PI - float_of_int i * (Fin 2 * PI / float_of_int (sideCount t)))
        * cosf (float_of_int j * (Fin 2 * PI / float_of_int (sectorCount t))) * (1 / r),
      r * cosf (PI - float_of_int i * (Fin 2 * PI / float_of_int (sideCount t)))
        * sinf (float_of_int j * (Fin 2 * PI / float_of_int (sectorCount t))) * (1 / r),
      r * sinf (PI - float_of_int i * (Fin 2 * PI / float_of_int (sideCount t))) * (1 / r)))"
  define P where "P = (\<lambda>i j.
     (r * cosf (PI - float_of_int i * (Fin 2 * PI / float_of_int (sideCount t)))
        * cosf (float_of_int j * (Fin 2 * PI / float_of_int (sectorCount t)))
        + R * cosf (float_of_int j * (Fin 2 * PI / float_of_int (sectorCount t))),
      r * cosf (PI - float_of_int i * (Fin 2 * PI / float_of_int (sideCount t)))
        * sinf (float_of_int j * (Fin 2 * PI / float_of_int (sectorCount t)))
        + R * sinf (float_of_int j * (Fin 2 * PI / float_of_int (sectorCount t))),
      r * sinf (PI - float_of_int i * (Fin 2 * PI / float_of_int (sideCount t)))))"
  from smooth_before_axis[OF assms] obtain t3 where
    run: "buildVerticesSmooth t
            = (if upAxis t \<noteq> 3 then changeUpAxis 3 (upAxis t) t3 else Inr t3)"
    and sy: "synced t3"
    and v3: "getVertexCount t3 = nat (sideCount t + 1) * nat (sectorCount t + 1)"
    and e: "\<forall>i j. 0 \<le> i \<and> i \<le> sideCount t \<and> 0 \<le> j \<and> j \<le> sectorCount t \<longrightarrow>
               triple (normals t3) (nat (i * (sectorCount t + 1) + j)) = N i j
             \<and> triple (vertices t3) (nat (i * (sectorCount t + 1) + j)) = P i j"
    unfolding N_def P_def by blast
  have l3: "length (vertices t3) = 3 * getVertexCount t3"
    "length (normals t3) = 3 * getVertexCount t3"
    using sy by (simp_all add: synced_def shaped_def)
  show ?thesis
  proof (cases "upAxis t = 3")
    case True
    with run e v3 l3 show ?thesis
      by (intro exI[of _ t3]) (simp add: Let_def N_def P_def)
  next
    case False
    from changeUpAxis_run[OF sy, of 3 "upAxis t"] obtain t' where
      c: "changeUpAxis 3 (upAxis t) t3 = Inr t'" "getVertexCount t' = getVertexCount t3"
        "length (vertices t') = length (vertices t3)" "length (normals t') = length (normals t3)"
      and ce: "\<forall>q < getVertexCount t3.
                  triple (vertices t') q
                    = applyColumns (axisColumns 3 (upAxis t)) (triple (vertices t3) q)
                \<and> triple (normals t') q
                    = applyColumns (axisColumns 3 (upAxis t)) (triple (normals t3) q)"
      by blast
    have "triple (normals t') (nat (i * (sectorCount t + 1) + j))
            = applyColumns (axisColumns 3 (upAxis t)) (N i j)
        \<and> triple (vertices t') (nat (i * (sectorCount t + 1) + j))
            = applyColumns (axisColumns 3 (upAxis t)) (P i j)"
      if ij: "0 \<le> i" "i \<le> sideCount t" "0 \<le> j" "j \<le> sectorCount t" for i j
    proof -
      have "nat (i * (sectorCount t + 1) + j) < getVertexCount t3"
        unfolding v3 by (rule grid_vertex_bound[OF ij])
      with ce e ij show ?thesis by simp
    qed
    with run c v3 l3 False show ?thesis
      by (intro exI[of _ t']) (simp add: Let_def N_def P_def)
  qed
qed

lemma smooth_position_fin:
  assumes "0 < r" "r + \<bar>R\<bar> \<le> FLT_MAX"
  shows "Fin r * cosf (Fin u) * cosf (Fin v) + Fin R * cosf (Fin v)
           = Fin (r * (cos u * cos v) + R * cos v)"
    and "Fin r * cosf (Fin u) * sinf (Fin v) + Fin R * sinf (Fin v)
           = Fin (r * (cos u * sin v) + R * sin v)"
    and "Fin r * sinf (Fin u) = Fin (r * sin u)"
proof -
  have rb: "r \<le> FLT_MAX" "\<bar>R\<bar> \<le> FLT_MAX" using assms by linarith+
  have le1: "\<bar>r * a\<bar> \<le> r" if "\<bar>a\<bar> \<le> 1" for a
  proof -
    from that have "\<bar>r * a\<bar> \<le> r * 1"
      unfolding abs_mult using assms(1) by (intro mult_mono) simp_all
    then show ?thesis by simp
  qed
  have le2: "\<bar>R * a\<bar> \<le> \<bar>R\<bar>" if "\<bar>a\<bar> \<le> 1" for a
  proof -
    from that have "\<bar>R * a\<bar> \<le> \<bar>R\<bar> * 1"
      unfolding abs_mult by (intro mult_mono) simp_all
    then show ?thesis by simp
  qed
  have cc: "\<bar>cos u * cos v\<bar> \<le> 1" "\<bar>cos u * sin v\<bar> \<le> 1"
    unfolding abs_mult by (intro mult_le_one abs_cos_le_one abs_sin_le_one abs_ge_zero)+
  have m1: "Fin r * cosf (Fin u) = Fin (r * cos u)" "Fin r * sinf (Fin u) = Fin (r * sin u)"
    using le1[of "cos u"] le1[of "sin u"] rb(1) by (simp_all add: rnd_fin)
  have m2: "Fin (r * cos u) * cosf (Fin v) = Fin (r * (cos u * cos v))"
    "Fin (r * cos u) * sinf (Fin v) = Fin (r * (cos u * sin v))"
    using le1[OF cc(1)] le1[OF cc(2)] rb(1) by (simp_all add: rnd_fin mult.assoc)
  have m3: "Fin R * cosf (Fin v) = Fin (R * cos v)" "Fin R * sinf (Fin v) = Fin (R * sin v)"
    using le2[of "cos v"] le2[of "sin v"] rb(2) by (simp_all add: rnd_fin)
  have s1: "\<bar>r * (cos u * cos v) + R * cos v\<bar> \<le> FLT_MAX"
    using le1[OF cc(1)] le2[of "cos v"] assms(2) by (simp add: abs_le_iff)
  have s2: "\<bar>r * (cos u * sin v) + R * sin v\<bar> \<le> FLT_MAX"
    using le1[OF cc(2)] le2[of "sin v"] assms(2) by (simp add: abs_le_iff)
  show "Fin r * cosf (Fin u) * cosf (Fin v) + Fin R * cosf (Fin v)
           = Fin (r * (cos u * cos v) + R * cos v)"
    unfolding m1 m2 m3 using s1 by (simp add: rnd_fin)
  show "Fin r * cosf (Fin u) * sinf (Fin v) + Fin R * sinf (Fin v)
           = Fin (r * (cos u * sin v) + R * sin v)"
    unfolding m1 m2 m3 using s2 by (simp add: rnd_fin)
  show "Fin r * sinf (Fin u) = Fin (r * sin u)" by (rule m1)
qed

lemma smooth_position_finite3:
  assumes "0 < r" "r + \<bar>R\<bar> \<le> FLT_MAX"
  shows "finite3 (Fin r * cosf (Fin u) * cosf (Fin v) + Fin R * cosf (Fin v),
                  Fin r * cosf (Fin u) * sinf (Fin v) + Fin R * sinf (Fin v),
                  Fin r * sinf (Fin u))"
proof -
  have le1: "\<bar>r * a\<bar> \<le> r" if "\<bar>a\<bar> \<le> 1" for a
  proof -
    from that have "\<bar>r * a\<bar> \<le> r * 1"
      unfolding abs_mult using assms(1) by (intro mult_mono) simp_all
    then show ?thesis by simp
  qed
  have le2: "\<bar>R * a\<bar> \<le> \<bar>R\<bar>" if "\<bar>a\<bar> \<le> 1" for a
  proof -
    from that have "\<bar>R * a\<bar> \<le> \<bar>R\<bar> * 1"
      unfolding abs_mult by (intro mult_mono) simp_all
    then show ?thesis by simp
  qed
  have cc: "\<bar>cos u * cos v\<bar> \<le> 1" "\<bar>cos u * sin v\<bar> \<le> 1"
    unfolding abs_mult by (intro mult_le_one abs_cos_le_one abs_sin_le_one abs_ge_zero)+
  have s1: "\<bar>r * (cos u * cos v) + R * cos v\<bar> \<le> FLT_MAX"
    using le1[OF cc(1)] le2[of "cos v"] assms(2) by (simp add: abs_le_iff)
  have s2: "\<bar>r * (cos u * sin v) + R * sin v\<bar> \<le> FLT_MAX"
    using le1[OF cc(2)] le2[of "sin v"] assms(2) by (simp add: abs_le_iff)
  have s3: "\<bar>r * sin u\<bar> \<le> FLT_MAX"
    using le1[of "sin u"] assms(2) by (simp add: abs_le_iff) linarith
  show ?thesis
    unfolding smooth_position_fin[OF assms] using s1 s2 s3 by (simp add: finite3_def)
qed

lemma list_all_finite3:
  assumes "length xs = 3 * m" "\<And>q. q < m \<Longrightarrow> finite3 (triple xs q)"
  shows "list_all isfinite xs"
proof (rule list_all_triples[OF assms(1)])
  fix q assume "q < m"
  from assms(2)[OF this] show "isfinite (fst (triple xs q))
      \<and> isfinite (fst (snd (triple xs q))) \<and> isfinite (snd (snd (triple xs q)))"
    by (cases "triple xs q") (simp add: finite3_def)
qed

lemma smooth_finiteMesh:
  assumes "validParameters t"
    and "majorRadius t = Some (Fin R)" and "minorRadius t = Some (Fin r)"
    and "1 / FLT_MAX \<le> r" and "r + R \<le> FLT_MAX"
    and "sectorCount t \<le> INT_MAX" and "sideCount t \<le> INT_MAX"
  shows "\<exists>t'. buildVerticesSmooth t = Inr t' \<and> finiteMesh t'
          \<and> getVertexCount t' = nat (sideCount t + 1) * nat (sectorCount t + 1)"
proof -
  from assms(1) obtain R' r' where p: "majorRadius t = Some R'" "0 < R'"
    "minorRadius t = Some r'" "0 < r'" "3 \<le> sectorCount t" "2 \<le> sideCount t"
    "1 \<le> upAxis t" "upAxis t \<le> 3"
    by (rule validParametersD)
  from p(1,2) assms(2) have "0 < Fin R" by simp
  then have R0: "0 < R" by (simp add: float_consts)
  from p(3,4) assms(3) have "0 < Fin r" by simp
  then have r0: "0 < r" by (simp add: float_consts)
  have rR: "r + \<bar>R\<bar> \<le> FLT_MAX" and rb: "r \<le> FLT_MAX" using assms(5) R0 r0 by simp_all
  have ax: "upAxis t = 1 \<or> upAxis t = 2 \<or> upAxis t = 3" using p(7,8) by arith
  have nn: "0 \<le> sectorCount t" "0 \<le> sideCount t" "1 \<le> sectorCount t" "1 \<le> sideCount t"
    using p(5,6) by simp_all
  from smooth_values[OF assms(2,3) nn(1,2)] obtain t' where
    run: "buildVerticesSmooth t = Inr t'"
    and vc: "getVertexCount t' = nat (sideCount t + 1) * nat (sectorCount t + 1)"
    and l: "length (vertices t') = 3 * getVertexCount t'"
      "length (normals t') = 3 * getVertexCount t'"
    and e: "\<forall>i j. 0 \<le> i \<and> i \<le> sideCount t \<and> 0 \<le> j \<and> j \<le> sectorCount t \<longrightarrow>
               (let u = PI - float_of_int i * (Fin 2 * PI / float_of_int (sideCount t));
                    v = float_of_int j * (Fin 2 * PI / float_of_int (sectorCount t));
                    n = (Fin r * cosf u * cosf v * (1 / Fin r),
                         Fin r * cosf u * sinf v * (1 / Fin r),
                         Fin r * sinf u * (1 / Fin r));
                    p = (Fin r * cosf u * cosf v + Fin R * cosf v,
                         Fin r * cosf u * sinf v + Fin R * sinf v,
                         Fin r * sinf u)
                in triple (normals t') (nat (i * (sectorCount t + 1) + j))
                     = (if upAxis t = 3 then n else applyColumns (axisColumns 3 (upAxis t)) n)
                 \<and> triple (vertices t') (nat (i * (sectorCount t + 1) + j))
                     = (if upAxis t = 3 then p else applyColumns (axisColumns 3 (upAxis t)) p))"
    by blast
  have g: "finite3 (triple (normals t') q) \<and> finite3 (triple (vertices t') q)"
    if "q < getVertexCount t'" for q
  proof -
    from that vc have "q < nat (sideCount t + 1) * nat (sectorCount t + 1)" by simp
    from grid_vertex_cover[OF this nn(1)] obtain i j where
      ij: "0 \<le> i" "i \<le> sideCount t" "0 \<le> j" "j \<le> sectorCount t"
      and q: "q = nat (i * (sectorCount t + 1) + j)"
      by auto
    define u where "u = pi - real_of_int i * (2 * pi / real_of_int (sideCount t))"
    define v where "v = real_of_int j * (2 * pi / real_of_int (sectorCount t))"
    have fu: "PI - float_of_int i * (Fin 2 * PI / float_of_int (sideCount t)) = Fin u"
      unfolding u_def by (rule angle_fin(2)[OF nn(4) assms(7) ij(1,2)])
    have fv: "float_of_int j * (Fin 2 * PI / float_of_int (sectorCount t)) = Fin v"
      unfolding v_def by (rule angle_fin(1)[OF nn(3) assms(6) ij(3,4)])
    define n where "n = (Fin r * cosf (Fin u) * cosf (Fin v) * (1 / Fin r),
                         Fin r * cosf (Fin u) * sinf (Fin v) * (1 / Fin r),
                         Fin r * sinf (Fin u) * (1 / Fin r))"
    define p where "p = (Fin r * cosf (Fin u) * cosf (Fin v) + Fin R * cosf (Fin v),
                         Fin r * cosf (Fin u) * sinf (Fin v) + Fin R * sinf (Fin v),
                         Fin r * sinf (Fin u))"
    have fn: "finite3 n"
      unfolding n_def smooth_normal_fin[OF r0 assms(4) rb] by (rule unit_finite3)
    have fp: "finite3 p"
      unfolding p_def by (rule smooth_position_finite3[OF r0 rR])
    have tn: "triple (normals t') q
                = (if upAxis t = 3 then n else applyColumns (axisColumns 3 (upAxis t)) n)"
      and tp: "triple (vertices t') q
                = (if upAxis t = 3 then p else applyColumns (axisColumns 3 (upAxis t)) p)"
      using e[rule_format, of i j] ij unfolding q Let_def fu fv n_def p_def by simp_all
    show ?thesis
    proof (cases "upAxis t = 3")
      case True
      with tn tp fn fp show ?thesis by simp
    next
      case False
      with ax have h: "(3::int) \<in> {1, 2, 3}" "upAxis t \<in> {1, 2, 3}" "3 \<noteq> upAxis t" by auto
      from axis_finite3[OF h fn] axis_finite3[OF h fp] tn tp False show ?thesis by simp
    qed
  qed
  have "list_all isfinite (vertices t')" "list_all isfinite (normals t')"
    using g by (auto intro!: list_all_finite3[OF l(1)] list_all_finite3[OF l(2)])
  with run vc show ?thesis by (intro exI[of _ t']) (simp add: finiteMesh_def)
qed

lemma finite_sample:
  "\<exists>t. Torus (Fin 1) (Fin (1 / 2)) 4 3 True 3 = Inr t
       \<and> reachable t \<and> finiteMesh t \<and> getVertexCount t = 20"
proof -
  define t9 where "t9 = Torus_set_members (Fin 1) (Fin (1 / 2)) 4 3 True 3 unconstructed"
  have pos: "0 < Fin 1" "0 < Fin (1 / 2)" by (simp_all add: float_consts)
  have f: "majorRadius t9 = Some (Fin 1)" "minorRadius t9 = Some (Fin (1 / 2))"
    "sectorCount t9 = 4" "sideCount t9 = 3" "upAxis t9 = 3"
    using pos by (simp_all add: t9_def Torus_set_members_fields)
  have v: "validParameters t9" using pos by (simp add: validParameters_def f)
  have b: "1 / FLT_MAX \<le> (1 / 2 :: real)" "(1 / 2 :: real) + 1 \<le> FLT_MAX"
    "sectorCount t9 \<le> INT_MAX" "sideCount t9 \<le> INT_MAX"
    by (simp_all add: FLT_MAX_def INT_MAX_def f)
  have run0: "Torus (Fin 1) (Fin (1 / 2)) 4 3 True 3 = buildVerticesSmooth t9"
    by (simp add: Torus_def Torus_set_unfold t9_def)
  from smooth_finiteMesh[OF v f(1,2) b] obtain t where
    t: "buildVerticesSmooth t9 = Inr t" "finiteMesh t"
      "getVertexCount t = nat (sideCount t9 + 1) * nat (sectorCount t9 + 1)"
    by blast
  have r: "Torus (Fin 1) (Fin (1 / 2)) 4 3 True 3 = Inr t" using run0 t(1) by simp
  have "getVertexCount t = 20" using t(3) by (simp add: f)
  with reachable.constructed[OF r] r t(2) show ?thesis by blast
qed

lemma overflow_sample:
  "\<exists>t. Torus (Fin 1) (Fin (1 / 10 ^ 39)) 4 3 True 3 = Inr t \<and> reachable t
       \<and> getVertexCount t = 20 \<and> triple (normals t) 0 = (NInf, NaN, NaN)"
proof -
  define t9 where "t9 = Torus_set_members (Fin 1) (Fin (1 / 10 ^ 39)) 4 3 True 3 unconstructed"
  have pos: "0 < Fin 1" "0 < Fin (1 / 10 ^ 39)" by (simp_all add: float_consts)
  have f: "majorRadius t9 = Some (Fin 1)" "minorRadius t9 = Some (Fin (1 / 10 ^ 39))"
    "sectorCount t9 = 4" "sideCount t9 = 3" "upAxis t9 = 3"
    using pos by (simp_all add: t9_def Torus_set_members_fields)
  have c: "0 \<le> sectorCount t9" "0 \<le> sideCount t9" by (simp_all add: f)
  have run0: "Torus (Fin 1) (Fin (1 / 10 ^ 39)) 4 3 True 3 = buildVerticesSmooth t9"
    by (simp add: Torus_def Torus_set_unfold t9_def)
  from smooth_values[OF f(1,2) c] obtain t where
    run: "buildVerticesSmooth t9 = Inr t"
    and vc: "getVertexCount t = nat (sideCount t9 + 1) * nat (sectorCount t9 + 1)"
    and e: "\<forall>i j. 0 \<le> i \<and> i \<le> sideCount t9 \<and> 0 \<le> j \<and> j \<le> sectorCount t9 \<longrightarrow>
               (let u = PI - float_of_int i * (Fin 2 * PI / float_of_int (sideCount t9));
                    v = float_of_int j * (Fin 2 * PI / float_of_int (sectorCount t9));
                    n = (Fin (1 / 10 ^ 39) * cosf u * cosf v * (1 / Fin (1 / 10 ^ 39)),
                         Fin (1 / 10 ^ 39) * cosf u * sinf v * (1 / Fin (1 / 10 ^ 39)),
                         Fin (1 / 10 ^ 39) * sinf u * (1 / Fin (1 / 10 ^ 39)));
                    p = (Fin (1 / 10 ^ 39) * cosf u * cosf v + Fin 1 * cosf v,
                         Fin (1 / 10 ^ 39) * cosf u * sinf v + Fin 1 * sinf v,
                         Fin (1 / 10 ^ 39) * sinf u)
                in triple (normals t) (nat (i * (sectorCount t9 + 1) + j))
                     = (if upAxis t9 = 3 then n else applyColumns (axisColumns 3 (upAxis t9)) n)
                 \<and> triple (vertices t) (nat (i * (sectorCount t9 + 1) + j))
                     = (if upAxis t9 = 3 then p else applyColumns (axisColumns 3 (upAxis t9)) p))"
    by blast
  have u: "PI - float_of_int 0 * (Fin 2 * PI / float_of_int 3) = Fin pi"
    using angle_fin(2)[of 3 0] by (simp add: INT_MAX_def)
  have v: "float_of_int 0 * (Fin 2 * PI / float_of_int 4) = Fin 0"
    using angle_fin(1)[of 4 0] by (simp add: INT_MAX_def)
  have n0: "triple (normals t) 0 = (NInf, NaN, NaN)"
    using e[rule_format, of 0 0]
    by (simp add: f Let_def u v float_consts rnd_def FLT_MAX_def)
  have vc': "getVertexCount t = 20" using vc by (simp add: f)
  have r: "Torus (Fin 1) (Fin (1 / 10 ^ 39)) 4 3 True 3 = Inr t" using run0 run by simp
  from reachable.constructed[OF r] r vc' n0 show ?thesis by blast
qed

lemma changeUpAxis_roundtrip:
  assumes "meshInv t" "finiteMesh t" "a \<in> {1, 2, 3}" "b \<in> {1, 2, 3}" "a \<noteq> b"
  shows "\<exists>t'. changeUpAxis a b t = Inr t' \<and> changeUpAxis b a t' = Inr t \<and> finiteMesh t'
          \<and> (\<forall>q < getVertexCount t.
                triple (vertices t') q = applyColumns (axisColumns a b) (triple (vertices t) q)
              \<and> triple (normals t') q = applyColumns (axisColumns a b) (triple (normals t) q)
              \<and> finite3 (triple (vertices t) q) \<and> finite3 (triple (normals t) q))"
proof -
  have sy: "synced t" and mc: "meshCounts t" and ir: "indicesInRange t"
    using assms(1) by (simp_all add: meshInv_def)
  have l: "length (vertices t) = 3 * getVertexCount t" "length (normals t) = 3 * getVertexCount t"
    using sy by (simp_all add: synced_def shaped_def)
  have fv: "finite3 (triple (vertices t) q)" and fn: "finite3 (triple (normals t) q)"
    if "q < getVertexCount t" for q
  proof -
    from assms(2) have a: "list_all isfinite (vertices t)" "list_all isfinite (normals t)"
      by (simp_all add: finiteMesh_def)
    from list_all_tripleD[OF a(1) l(1) that] show "finite3 (triple (vertices t) q)"
      by (cases "triple (vertices t) q") (simp add: finite3_def)
    from list_all_tripleD[OF a(2) l(2) that] show "finite3 (triple (normals t) q)"
      by (cases "triple (normals t) q") (simp add: finite3_def)
  qed
  from changeUpAxis_inv[OF sy mc ir, of a b] obtain t' where
    c: "changeUpAxis a b t = Inr t'" "sameParameters t t'" "synced t'"
      "meshCounts t'" "indicesInRange t'" "texCoords t' = texCoords t"
      "indices t' = indices t" "lineIndices t' = lineIndices t"
      "length (vertices t') = length (vertices t)" "length (normals t') = length (normals t)"
      "\<forall>q < getVertexCount t.
          triple (vertices t') q = applyColumns (axisColumns a b) (triple (vertices t) q)
        \<and> triple (normals t') q = applyColumns (axisColumns a b) (triple (normals t) q)"
    by blast
  from changeUpAxis_inv[OF c(3,4,5), of b a] obtain t'' where
    d: "changeUpAxis b a t' = Inr t''" "sameParameters t' t''" "synced t''"
      "texCoords t'' = texCoords t'"
      "indices t'' = indices t'" "lineIndices t'' = lineIndices t'"
      "length (vertices t'') = length (vertices t')"
      "length (normals t'') = length (normals t')"
      "\<forall>q < getVertexCount t'.
          triple (vertices t'') q = applyColumns (axisColumns b a) (triple (vertices t') q)
        \<and> triple (normals t'') q = applyColumns (axisColumns b a) (triple (normals t') q)"
    by blast
  have v: "getVertexCount t' = getVertexCount t" using c(9) by (simp add: getVertexCount_def)
  have vs: "vertices t'' = vertices t"
  proof (rule list3_eqI[where n = "getVertexCount t"])
    show "length (vertices t'') = 3 * getVertexCount t" using d(7) c(9) l by simp
    show "length (vertices t) = 3 * getVertexCount t" by (rule l)
    fix q assume "q < getVertexCount t"
    then show "triple (vertices t'') q = triple (vertices t) q"
      using c(11) d(9) v by (simp add: axis_inverse[OF assms(3,4,5) fv])
  qed
  have ns: "normals t'' = normals t"
  proof (rule list3_eqI[where n = "getVertexCount t"])
    show "length (normals t'') = 3 * getVertexCount t" using d(8) c(10) l by simp
    show "length (normals t) = 3 * getVertexCount t" by (rule l)
    fix q assume "q < getVertexCount t"
    then show "triple (normals t'') q = triple (normals t) q"
      using c(11) d(9) v by (simp add: axis_inverse[OF assms(3,4,5) fn])
  qed
  have iv: "interleavedVertices t'' = interleavedVertices t"
    by (rule synced_unique[OF sy d(3) vs ns]) (simp add: c d)
  have sp: "sameParameters t t''" using c(2) d(2) by (simp add: sameParameters_def)
  have "t'' = t"
    by (rule torus_eqI[OF sp vs ns _ _ _ iv]) (simp_all add: c d)
  with d(1) have rt: "changeUpAxis b a t' = Inr t" by simp
  have fin: "finiteMesh t'"
    unfolding finiteMesh_def
  proof
    show "list_all isfinite (vertices t')"
    proof (rule list_all_triples[where m = "getVertexCount t"])
      show "length (vertices t') = 3 * getVertexCount t" using c(9) l by simp
      fix q assume q: "q < getVertexCount t"
      from axis_finite3[OF assms(3,4,5) fv[OF q]] c(11) q
      have "finite3 (triple (vertices t') q)" by simp
      then show "isfinite (fst (triple (vertices t') q))
          \<and> isfinite (fst (snd (triple (vertices t') q)))
          \<and> isfinite (snd (snd (triple (vertices t') q)))"
        by (cases "triple (vertices t') q") (simp add: finite3_def)
    qed
    show "list_all isfinite (normals t')"
    proof (rule list_all_triples[where m = "getVertexCount t"])
      show "length (normals t') = 3 * getVertexCount t" using c(10) l by simp
      fix q assume q: "q < getVertexCount t"
      from axis_finite3[OF assms(3,4,5) fn[OF q]] c(11) q
      have "finite3 (triple (normals t') q)" by simp
      then show "isfinite (fst (triple (normals t') q))
          \<and> isfinite (fst (snd (triple (normals t') q)))
          \<and> isfinite (snd (snd (triple (normals t') q)))"
        by (cases "triple (normals t') q") (simp add: finite3_def)
    qed
  qed
  show ?thesis
    using c(1) rt fin c(11) fv fn by (intro exI[of _ t']) simp
qed

section \<open>The claims\<close>

text \<open>
  Claim C1. In every object produced by the constructor or a setter, in either shading
  mode, the position, normal and texture coordinate arrays hold the same number of
  vertices (3, 3 and 2 floats each), every entry of the triangle index array and of the
  line index array is less than that number, and the two index arrays have lengths that
  are multiples of 3 and of 2.
\<close>

theorem reachable_arrays_consistent:
  assumes "reachable t"
  shows "getNormalCount t = getVertexCount t \<and> getTexCoordCount t = getVertexCount t
       \<and> length (vertices t) = 3 * getVertexCount t
       \<and> length (normals t) = 3 * getVertexCount t
       \<and> length (texCoords t) = 2 * getVertexCount t
       \<and> (\<forall>x \<in> set (indices t). x < getVertexCount t)
       \<and> (\<forall>x \<in> set (lineIndices t). x < getVertexCount t)
       \<and> length (indices t) mod 3 = 0 \<and> length (lineIndices t) mod 2 = 0"
proof -
  from reachable_inv[OF assms] have sy: "synced t" and mc: "meshCounts t"
    and ir: "indicesInRange t"
    by (simp_all add: torusInv_def meshInv_def)
  from sy have sh: "length (vertices t) = 3 * getVertexCount t"
    "length (normals t) = 3 * getVertexCount t" "length (texCoords t) = 2 * getVertexCount t"
    by (simp_all add: synced_def shaped_def)
  have "getNormalCount t = getVertexCount t" "getTexCoordCount t = getVertexCount t"
    using sh by (simp_all add: getNormalCount_def getTexCoordCount_def)
  moreover have "length (indices t) mod 3 = 0" "length (lineIndices t) mod 2 = 0"
    using mc by (simp_all add: meshCounts_def)
  ultimately show ?thesis using sh ir by (simp add: indicesInRange_def)
qed

theorem reachable_arrays_consistent_witness:
  "\<exists>t. Torus (Fin 1) (Fin (1 / 2)) 4 3 True 3 = Inr t \<and> reachable t
       \<and> getNormalCount t = getVertexCount t \<and> getTexCoordCount t = getVertexCount t
       \<and> list_all (\<lambda>x. x < getVertexCount t) (indices t)
       \<and> list_all (\<lambda>x. x < getVertexCount t) (lineIndices t)
       \<and> length (indices t) = 72 \<and> length (lineIndices t) = 48 \<and> getVertexCount t = 20"
proof -
  from sample_reachable obtain t where t: "Torus (Fin 1) (Fin (1 / 2)) 4 3 True 3 = Inr t" "reachable t"
    "sectorCount t = 4" "sideCount t = 3" "smooth t"
    by blast
  from reachable_counts(1-3)[OF t(2)] t(3-5)
  have c: "getVertexCount t = 20" "length (indices t) = 72" "length (lineIndices t) = 48"
    by simp_all
  from reachable_arrays_consistent[OF t(2)] t(1,2) c show ?thesis
    by (intro exI[of _ t]) (simp add: list_all_iff)
qed



text \<open>
  Claim C3. In every reachable object the interleaved array has 8 floats per vertex, and
  record \<open>i\<close> holds the 3 position floats of vertex \<open>i\<close>, then its 3 normal floats, then
  its 2 texture coordinate floats; the stride is 32 bytes; rebuilding the interleaved
  array from the three attribute arrays gives the same object.
\<close>

theorem reachable_interleaved_layout:
  assumes "reachable t"
  shows "length (interleavedVertices t) = 8 * getVertexCount t
       \<and> (\<forall>i < getVertexCount t.
             interleavedVertices t ! (8 * i) = vertices t ! (3 * i)
           \<and> interleavedVertices t ! (8 * i + 1) = vertices t ! (3 * i + 1)
           \<and> interleavedVertices t ! (8 * i + 2) = vertices t ! (3 * i + 2)
           \<and> interleavedVertices t ! (8 * i + 3) = normals t ! (3 * i)
           \<and> interleavedVertices t ! (8 * i + 4) = normals t ! (3 * i + 1)
           \<and> interleavedVertices t ! (8 * i + 5) = normals t ! (3 * i + 2)
           \<and> interleavedVertices t ! (8 * i + 6) = texCoords t ! (2 * i)
           \<and> interleavedVertices t ! (8 * i + 7) = texCoords t ! (2 * i + 1))
       \<and> getInterleavedStride t = 32
       \<and> buildInterleavedVertices t = Inr t"
proof -
  from reachable_inv[OF assms] have sy: "synced t" and st: "interleavedStride t = 32"
    by (simp_all add: torusInv_def meshInv_def)
  have "length (interleavedVertices t) = 8 * getVertexCount t"
    using sy by (simp add: synced_def)
  moreover have "getInterleavedStride t = 32" using st by (simp add: getInterleavedStride_def)
  ultimately show ?thesis
    using synced_layout[OF sy] synced_rebuild[OF sy] by simp
qed

theorem reachable_interleaved_layout_witness:
  "\<exists>t. Torus (Fin 1) (Fin (1 / 2)) 4 3 True 3 = Inr t \<and> reachable t
       \<and> length (interleavedVertices t) = 160
       \<and> interleavedVertices t ! 8 = vertices t ! 3
       \<and> interleavedVertices t ! 11 = normals t ! 3
       \<and> interleavedVertices t ! 14 = texCoords t ! 2
       \<and> getInterleavedStride t = 32"
proof -
  from sample_reachable obtain t where t: "Torus (Fin 1) (Fin (1 / 2)) 4 3 True 3 = Inr t" "reachable t"
    "sectorCount t = 4" "sideCount t = 3" "smooth t"
    by blast
  from reachable_counts(1)[OF t(2)] t(3-5) have c: "getVertexCount t = 20" by simp
  from reachable_interleaved_layout[OF t(2)] have
    l: "length (interleavedVertices t) = 8 * getVertexCount t"
    and e: "\<forall>i < getVertexCount t.
             interleavedVertices t ! (8 * i) = vertices t ! (3 * i)
           \<and> interleavedVertices t ! (8 * i + 1) = vertices t ! (3 * i + 1)
           \<and> interleavedVertices t ! (8 * i + 2) = vertices t ! (3 * i + 2)
           \<and> interleavedVertices t ! (8 * i + 3) = normals t ! (3 * i)
           \<and> interleavedVertices t ! (8 * i + 4) = normals t ! (3 * i + 1)
           \<and> interleavedVertices t ! (8 * i + 5) = normals t ! (3 * i + 2)
           \<and> interleavedVertices t ! (8 * i + 6) = texCoords t ! (2 * i)
           \<and> interleavedVertices t ! (8 * i + 7) = texCoords t ! (2 * i + 1)"
    and s: "getInterleavedStride t = 32"
    by blast+
  have x: "interleavedVertices t ! 8 = vertices t ! 3"
    "interleavedVertices t ! 11 = normals t ! 3" "interleavedVertices t ! 14 = texCoords t ! 2"
    using e[rule_format, of 1] c by simp_all
  have l': "length (interleavedVertices t) = 160" using l c by simp
  show ?thesis
    by (rule exI[of _ t], intro conjI t(1,2) l' x s)
qed



text \<open>
  Claim C5, amended: for every reachable object whose positions and normals are all
  finite, and every ordered pair of different axes among 1, 2, 3, the remap from the
  first axis to the second succeeds, the remap back restores the whole object (every
  position, every normal and their interleaved copies), and the single remap keeps every
  float finite and preserves the length of every position vector and of every normal
  vector. Without the finiteness the claim fails: the remap multiplies each coordinate by
  the zeros of the matrix, and \<open>0 * inf\<close> is NaN (see the counterexample below).
\<close>

theorem changeUpAxis_round_trip_isometry:
  assumes "reachable t" and "finiteMesh t"
    and "a \<in> {1, 2, 3}" and "b \<in> {1, 2, 3}" and "a \<noteq> b"
  shows "\<exists>t'. changeUpAxis a b t = Inr t' \<and> changeUpAxis b a t' = Inr t \<and> finiteMesh t'
          \<and> (\<forall>q < getVertexCount t.
                vectorLength (triple (vertices t') q) = vectorLength (triple (vertices t) q)
              \<and> vectorLength (triple (normals t') q) = vectorLength (triple (normals t) q))"
proof -
  from reachable_inv[OF assms(1)] have "meshInv t" by (simp add: torusInv_def)
  from changeUpAxis_roundtrip[OF this assms(2,3,4,5)] obtain t' where
    r: "changeUpAxis a b t = Inr t'" "changeUpAxis b a t' = Inr t" "finiteMesh t'"
    and e: "\<forall>q < getVertexCount t.
                triple (vertices t') q = applyColumns (axisColumns a b) (triple (vertices t) q)
              \<and> triple (normals t') q = applyColumns (axisColumns a b) (triple (normals t) q)
              \<and> finite3 (triple (vertices t) q) \<and> finite3 (triple (normals t) q)"
    by blast
  have "\<forall>q < getVertexCount t.
                vectorLength (triple (vertices t') q) = vectorLength (triple (vertices t) q)
              \<and> vectorLength (triple (normals t') q) = vectorLength (triple (normals t) q)"
    using e by (simp add: axis_length[OF assms(3,4,5)])
  with r show ?thesis by blast
qed

theorem changeUpAxis_round_trip_isometry_witness:
  "\<exists>t t'. Torus (Fin 1) (Fin (1 / 2)) 4 3 True 3 = Inr t
       \<and> reachable t \<and> finiteMesh t
       \<and> changeUpAxis 3 1 t = Inr t' \<and> changeUpAxis 1 3 t' = Inr t \<and> finiteMesh t'
       \<and> vectorLength (triple (vertices t') 0) = vectorLength (triple (vertices t) 0)
       \<and> vectorLength (triple (normals t') 19) = vectorLength (triple (normals t) 19)"
proof -
  from finite_sample obtain t where
    t: "Torus (Fin 1) (Fin (1 / 2)) 4 3 True 3 = Inr t"
      "reachable t" "finiteMesh t" "getVertexCount t = 20"
    by blast
  have h: "(3::int) \<in> {1, 2, 3}" "(1::int) \<in> {1, 2, 3}" "(3::int) \<noteq> 1" by simp_all
  from changeUpAxis_round_trip_isometry[OF t(2,3) h] obtain t' where
    r: "changeUpAxis 3 1 t = Inr t'" "changeUpAxis 1 3 t' = Inr t" "finiteMesh t'"
    and e: "\<forall>q < getVertexCount t.
                vectorLength (triple (vertices t') q) = vectorLength (triple (vertices t) q)
              \<and> vectorLength (triple (normals t') q) = vectorLength (triple (normals t) q)"
    by blast
  from e[rule_format, of 0] e[rule_format, of 19] t(4)
  have x: "vectorLength (triple (vertices t') 0) = vectorLength (triple (vertices t) 0)"
    "vectorLength (triple (normals t') 19) = vectorLength (triple (normals t) 19)"
    by simp_all
  show ?thesis
    by (rule exI[of _ t], rule exI[of _ t'], intro conjI t(1,2,3) r x)
qed

text \<open>
  The counterexample to claim C5 as stated for every mesh state: the constructor call
  \<open>Torus(1.0f, 1e-39f, 4, 3, true, 3)\<close> returns an object whose first normal is
  (-inf, NaN, NaN), because \<open>1.0f / minorRadius\<close> overflows; the remap from axis 3 to
  axis 1 and back succeeds and returns an object whose first normal is (NaN, NaN, NaN).
\<close>

theorem changeUpAxis_round_trip_loses_infinity:
  "\<exists>t t' t''. Torus (Fin 1) (Fin (1 / 10 ^ 39)) 4 3 True 3 = Inr t \<and> reachable t
       \<and> changeUpAxis 3 1 t = Inr t' \<and> changeUpAxis 1 3 t' = Inr t''
       \<and> triple (normals t) 0 = (NInf, NaN, NaN)
       \<and> triple (normals t'') 0 = (NaN, NaN, NaN)
       \<and> t'' \<noteq> t"
proof -
  from overflow_sample obtain t where
    t: "Torus (Fin 1) (Fin (1 / 10 ^ 39)) 4 3 True 3 = Inr t" "reachable t"
      "getVertexCount t = 20" "triple (normals t) 0 = (NInf, NaN, NaN)"
    by blast
  from reachable_inv[OF t(2)] have sy: "synced t" by (simp add: torusInv_def meshInv_def)
  from changeUpAxis_run[OF sy, of 3 1] obtain t' where
    c: "changeUpAxis 3 1 t = Inr t'" "synced t'" "getVertexCount t' = getVertexCount t"
    and ce: "\<forall>q < getVertexCount t.
                triple (vertices t') q = applyColumns (axisColumns 3 1) (triple (vertices t) q)
              \<and> triple (normals t') q = applyColumns (axisColumns 3 1) (triple (normals t) q)"
    by blast
  from changeUpAxis_run[OF c(2), of 1 3] obtain t'' where
    d: "changeUpAxis 1 3 t' = Inr t''"
    and de: "\<forall>q < getVertexCount t'.
                triple (vertices t'') q = applyColumns (axisColumns 1 3) (triple (vertices t') q)
              \<and> triple (normals t'') q = applyColumns (axisColumns 1 3) (triple (normals t') q)"
    by blast
  have n1: "triple (normals t') 0 = (NaN, NaN, NaN)"
    using ce[rule_format, of 0] t(3,4)
    by (simp add: applyColumns_def axisColumns_def float_consts)
  have n2: "triple (normals t'') 0 = (NaN, NaN, NaN)"
    using de[rule_format, of 0] c(3) t(3) n1
    by (simp add: applyColumns_def axisColumns_def float_consts)
  have "t'' \<noteq> t" using n2 t(4) by auto
  with t(1,2) c(1) d t(4) n2 show ?thesis by blast
qed

text \<open>
  Claim C6. For every reachable object, \<open>reverseNormals\<close> succeeds, negates every normal
  component, stores the negated normal in slots 3, 4, 5 of each interleaved record, and
  swaps the first and last index of every triangle; a second call restores the whole
  object exactly.
\<close>

theorem reverseNormals_self_inverse:
  assumes "reachable t"
  shows "\<exists>t'. reverseNormals t = Inr t' \<and> reverseNormals t' = Inr t
          \<and> normals t' = map uminus (normals t)
          \<and> (\<forall>q < getVertexCount t.
                interleavedVertices t' ! (8 * q + 3) = - (normals t ! (3 * q))
              \<and> interleavedVertices t' ! (8 * q + 4) = - (normals t ! (3 * q + 1))
              \<and> interleavedVertices t' ! (8 * q + 5) = - (normals t ! (3 * q + 2)))
          \<and> (\<forall>q < getTriangleCount t.
                indices t' ! (3 * q) = indices t ! (3 * q + 2)
              \<and> indices t' ! (3 * q + 1) = indices t ! (3 * q + 1)
              \<and> indices t' ! (3 * q + 2) = indices t ! (3 * q))"
proof -
  from reachable_inv[OF assms] have mi: "meshInv t" by (simp add: torusInv_def)
  from reverseNormals_twice[OF mi] obtain t' where
    r: "reverseNormals t = Inr t'" "reverseNormals t' = Inr t"
    and mi': "meshInv t'"
    and f: "vertices t' = vertices t" "normals t' = map uminus (normals t)"
    and e: "\<forall>q < getTriangleCount t. triple (indices t') q = swap13 (triple (indices t) q)"
    by blast
  have sy: "synced t" "synced t'" using mi mi' by (simp_all add: meshInv_def)
  have v: "getVertexCount t' = getVertexCount t" by (simp add: getVertexCount_def f)
  have l: "length (normals t) = 3 * getVertexCount t"
    using sy(1) by (simp add: synced_def shaped_def)
  have iv: "interleavedVertices t' ! (8 * q + 3) = - (normals t ! (3 * q))
          \<and> interleavedVertices t' ! (8 * q + 4) = - (normals t ! (3 * q + 1))
          \<and> interleavedVertices t' ! (8 * q + 5) = - (normals t ! (3 * q + 2))"
    if "q < getVertexCount t" for q
    using synced_layout(4,5,6)[OF sy(2), of q] that l by (simp add: v f)
  have ix: "indices t' ! (3 * q) = indices t ! (3 * q + 2)
              \<and> indices t' ! (3 * q + 1) = indices t ! (3 * q + 1)
              \<and> indices t' ! (3 * q + 2) = indices t ! (3 * q)"
    if "q < getTriangleCount t" for q
    using e that by (simp add: triple_def swap13_def)
  from r f(2) iv ix show ?thesis by blast
qed

theorem reverseNormals_self_inverse_witness:
  "\<exists>t t'. Torus (Fin 1) (Fin (1 / 2)) 4 3 True 3 = Inr t \<and> reachable t
       \<and> reverseNormals t = Inr t' \<and> reverseNormals t' = Inr t
       \<and> normals t' = map uminus (normals t)
       \<and> indices t' ! 0 = indices t ! 2 \<and> indices t' ! 2 = indices t ! 0
       \<and> interleavedVertices t' ! 3 = - (normals t ! 0)"
proof -
  from sample_reachable obtain t where t: "Torus (Fin 1) (Fin (1 / 2)) 4 3 True 3 = Inr t" "reachable t"
    "sectorCount t = 4" "sideCount t = 3" "smooth t"
    by blast
  from reachable_counts(1,2)[OF t(2)] t(3-5)
  have c: "getVertexCount t = 20" "getTriangleCount t = 24"
    by (simp_all add: getTriangleCount_def getIndexCount_def)
  from reverseNormals_self_inverse[OF t(2)] obtain t' where
    r: "reverseNormals t = Inr t'" "reverseNormals t' = Inr t"
      "normals t' = map uminus (normals t)"
    and iv: "\<forall>q < getVertexCount t.
                interleavedVertices t' ! (8 * q + 3) = - (normals t ! (3 * q))
              \<and> interleavedVertices t' ! (8 * q + 4) = - (normals t ! (3 * q + 1))
              \<and> interleavedVertices t' ! (8 * q + 5) = - (normals t ! (3 * q + 2))"
    and ix: "\<forall>q < getTriangleCount t.
                indices t' ! (3 * q) = indices t ! (3 * q + 2)
              \<and> indices t' ! (3 * q + 1) = indices t ! (3 * q + 1)
              \<and> indices t' ! (3 * q + 2) = indices t ! (3 * q)"
    by blast
  have x: "interleavedVertices t' ! 3 = - (normals t ! 0)"
    using iv[rule_format, of 0] c by simp
  have y: "indices t' ! 0 = indices t ! 2" "indices t' ! 2 = indices t ! 0"
    using ix[rule_format, of 0] c by (simp_all add: numeral_2_eq_2)
  show ?thesis
    by (rule exI[of _ t], rule exI[of _ t'], intro conjI t(1,2) r x y)
qed




text \<open>
  Claim C9. For every reachable object, an axis remap (\<open>changeUpAxis\<close>, and \<open>setUpAxis\<close>
  that calls it) succeeds and leaves the texture coordinates and both index arrays as
  they were; \<open>reverseNormals\<close> succeeds and leaves the texture coordinates, the line
  indices and the positions as they were, and keeps the length of the triangle index
  array.
\<close>

theorem remap_and_flip_frame:
  assumes "reachable t"
  shows "(\<exists>t'. changeUpAxis a b t = Inr t' \<and> texCoords t' = texCoords t
            \<and> indices t' = indices t \<and> lineIndices t' = lineIndices t)
       \<and> (\<exists>t'. setUpAxis up t = Inr t' \<and> texCoords t' = texCoords t
            \<and> indices t' = indices t \<and> lineIndices t' = lineIndices t)
       \<and> (\<exists>t'. reverseNormals t = Inr t' \<and> texCoords t' = texCoords t
            \<and> lineIndices t' = lineIndices t \<and> vertices t' = vertices t
            \<and> length (indices t') = length (indices t)
            \<and> getTriangleCount t' = getTriangleCount t)"
proof -
  from reachable_inv[OF assms] have mi: "meshInv t" by (simp add: torusInv_def)
  then have sy: "synced t" and mc: "meshCounts t" and ir: "indicesInRange t"
    by (simp_all add: meshInv_def)
  from changeUpAxis_inv[OF sy mc ir, of a b]
  have 1: "\<exists>t'. changeUpAxis a b t = Inr t' \<and> texCoords t' = texCoords t
            \<and> indices t' = indices t \<and> lineIndices t' = lineIndices t"
    by blast
  from setUpAxis_inv[OF mi, of up]
  have 2: "\<exists>t'. setUpAxis up t = Inr t' \<and> texCoords t' = texCoords t
            \<and> indices t' = indices t \<and> lineIndices t' = lineIndices t"
    by blast
  from reverseNormals_inv[OF mi] obtain t' where
    "reverseNormals t = Inr t'" "texCoords t' = texCoords t" "lineIndices t' = lineIndices t"
    "vertices t' = vertices t" "length (indices t') = length (indices t)"
    by blast
  then have 3: "\<exists>t'. reverseNormals t = Inr t' \<and> texCoords t' = texCoords t
            \<and> lineIndices t' = lineIndices t \<and> vertices t' = vertices t
            \<and> length (indices t') = length (indices t)
            \<and> getTriangleCount t' = getTriangleCount t"
    by (intro exI[of _ t']) (simp add: getTriangleCount_def getIndexCount_def)
  from 1 2 3 show ?thesis by (intro conjI)
qed

theorem remap_and_flip_frame_witness:
  "\<exists>t. Torus (Fin 1) (Fin (1 / 2)) 4 3 True 3 = Inr t \<and> reachable t
     \<and> (\<exists>t'. changeUpAxis 3 2 t = Inr t' \<and> texCoords t' = texCoords t
            \<and> indices t' = indices t \<and> lineIndices t' = lineIndices t)
     \<and> (\<exists>t'. setUpAxis 1 t = Inr t' \<and> texCoords t' = texCoords t
            \<and> indices t' = indices t \<and> lineIndices t' = lineIndices t)
     \<and> (\<exists>t'. reverseNormals t = Inr t' \<and> texCoords t' = texCoords t
            \<and> lineIndices t' = lineIndices t \<and> vertices t' = vertices t
            \<and> length (indices t') = length (indices t)
            \<and> getTriangleCount t' = getTriangleCount t)"
proof -
  from sample_reachable obtain t where t: "Torus (Fin 1) (Fin (1 / 2)) 4 3 True 3 = Inr t" "reachable t"
    by blast
  from remap_and_flip_frame[OF t(2), of 3 2 1] t show ?thesis
    by (intro exI[of _ t]) simp
qed

text \<open>
  Claim C10. A constructor call whose major or minor radius argument is not positive
  reads a radius member that nothing has assigned: \<open>set\<close> skips the assignment, the
  object has no prior value, and the vertex builder reads the member.
\<close>

theorem Torus_nonpositive_radius_reads_unassigned:
  "majorR \<le> 0 \<or> minorR \<le> 0
   \<Longrightarrow> Torus majorR minorR sectors sides sm up = Inl UninitializedRead"
  by (rule Torus_uninit) (auto dest: float_le_not_less)

theorem Torus_nonpositive_radius_reads_unassigned_witness:
  "Torus 0 (Fin (1 / 2)) 36 18 True 3 = Inl UninitializedRead"
  using Torus_nonpositive_radius_reads_unassigned[of 0 "Fin (1 / 2)" 36 18 True 3]
  by (simp add: float_consts)

end
